theory Spec2Isabelle
  imports Main "HOL-Library.Multiset"
begin

section \<open>Boards and the placement rule (app.jsx, lines 8-33)\<close>

text \<open>
  A board is an array of rows, each row an array of numbers; a cell holds \<open>BLANK\<close>
  (the number 0) or a digit. Every board the program builds has 9 rows of 9 cells and
  every index the program uses is in \<open>0..8\<close>, so reads are \<open>b ! r ! c\<close>; the theorems
  below carry the shape of the board and the range of the indices as hypotheses.
\<close>

type_synonym board = "nat list list"

definition BLANK :: nat where
  "BLANK = 0"

definition GRID_SIZE :: nat where
  "GRID_SIZE = 9"

definition getEmptyBoard :: board where
  "getEmptyBoard = replicate GRID_SIZE (replicate GRID_SIZE BLANK)"

text \<open>The assignment \<open>board[r][c] = v\<close>.\<close>

definition setCell :: "board \<Rightarrow> nat \<Rightarrow> nat \<Rightarrow> nat \<Rightarrow> board" where
  "setCell b r c v = b[r := (b ! r)[c := v]]"

text \<open>
  \<open>isSafe\<close>: three loops, each returning \<open>false\<close> at the first cell equal to \<open>num\<close>;
  the value \<open>true\<close> is reached only when all three loops ran to their end.
\<close>

definition isSafe :: "board \<Rightarrow> nat \<Rightarrow> nat \<Rightarrow> nat \<Rightarrow> bool" where
  "isSafe b row col num =
     (if list_ex (\<lambda>x. b ! row ! x = num) [0..<GRID_SIZE] then False
      else if list_ex (\<lambda>x. b ! x ! col = num) [0..<GRID_SIZE] then False
      else let startRow = row - (row mod 3); startCol = col - (col mod 3)
           in if list_ex (\<lambda>i. list_ex (\<lambda>j. b ! (i + startRow) ! (j + startCol) = num) [0..<3]) [0..<3]
              then False else True)"

section \<open>The backtracking solver (app.jsx, lines 36-55)\<close>

text \<open>
  The two outer loops of \<open>solveSudoku\<close> scan the cells in row-major order and act on
  the first blank one (every path through the loop body returns).
\<close>

definition findBlank :: "board \<Rightarrow> (nat \<times> nat) option" where
  "findBlank b = find (\<lambda>(row, col). b ! row ! col = BLANK)
                      (List.product [0..<GRID_SIZE] [0..<GRID_SIZE])"

text \<open>
  Randomness. \<open>[1..9].sort(() => Math.random() - 0.5)\<close> yields some rearrangement of
  the nine digits. The solver takes the outcomes of these calls as a function \<open>sh\<close>:
  \<open>sh k\<close> is the array produced by the \<open>k\<close>-th call; the counter \<open>k\<close> is threaded
  through the recursion, so every visit of a blank cell draws a fresh order.

  The board is mutated in place by the source; here it is passed and returned. The
  recursion is bounded by a fuel argument (one unit per nested call of \<open>solveSudoku\<close>);
  \<open>None\<close> means the fuel ran out, and \<open>solveSudoku_returns\<close> below shows that this
  never happens once the fuel exceeds the number of blank cells.
  \<open>tryNums\<close> is the loop \<open>for (let num of nums)\<close> at the blank cell \<open>(row, col)\<close>.
\<close>

fun solveSudoku :: "nat \<Rightarrow> (nat \<Rightarrow> nat list) \<Rightarrow> nat \<Rightarrow> board \<Rightarrow> (bool \<times> board \<times> nat) option"
and tryNums :: "nat \<Rightarrow> (nat \<Rightarrow> nat list) \<Rightarrow> nat list \<Rightarrow> nat \<Rightarrow> nat \<Rightarrow> nat \<Rightarrow> board
                  \<Rightarrow> (bool \<times> board \<times> nat) option"
where
  "solveSudoku 0 sh k b = None"
| "solveSudoku (Suc fuel) sh k b =
     (case findBlank b of
        None \<Rightarrow> Some (True, b, k)
      | Some (row, col) \<Rightarrow> tryNums fuel sh (sh k) row col (Suc k) b)"
| "tryNums fuel sh [] row col k b = Some (False, b, k)"
| "tryNums fuel sh (num # nums) row col k b =
     (if isSafe b row col num then
        (case solveSudoku fuel sh k (setCell b row col num) of
           None \<Rightarrow> None
         | Some (ok, b', k') \<Rightarrow>
             if ok then Some (True, b', k')
             else tryNums fuel sh nums row col k' (setCell b' row col BLANK))
      else tryNums fuel sh nums row col k b)"

section \<open>The generator (app.jsx, lines 58-86)\<close>

text \<open>
  \<open>generateFullBoard\<close> draws the first row (\<open>sh 0\<close>), runs the solver and returns the
  board whatever the solver answered: the source discards the result of the call.
  \<open>seededBoard\<close> is the board the solver is started on, \<open>topLevelSolve\<close> that call.
  At most 81 cells are blank, so 82 units of fuel are enough.
\<close>

definition seededBoard :: "(nat \<Rightarrow> nat list) \<Rightarrow> board" where
  "seededBoard sh = getEmptyBoard[0 := sh 0]"

definition topLevelSolve :: "(nat \<Rightarrow> nat list) \<Rightarrow> (bool \<times> board \<times> nat) option" where
  "topLevelSolve sh = solveSudoku (GRID_SIZE * GRID_SIZE + 1) sh 1 (seededBoard sh)"

definition generateFullBoard :: "(nat \<Rightarrow> nat list) \<Rightarrow> board option" where
  "generateFullBoard sh =
     (case topLevelSolve sh of None \<Rightarrow> None | Some (ok, b, k) \<Rightarrow> Some b)"

datatype difficulty = Easy | Medium | Hard

definition budget :: "difficulty \<Rightarrow> nat" where
  "budget d = (if d = Easy then 30 else if d = Medium then 45 else 55)"

text \<open>
  The removal loop \<open>while (attempts > 0)\<close>. \<open>pk j\<close> is the value of the \<open>j\<close>-th
  \<open>Math.floor(Math.random() * GRID_SIZE)\<close>; an iteration draws two of them. The loop
  resamples when it hits a blank cell, so it need not end: \<open>None\<close> is "does not return".
\<close>

partial_function (option) removeCells :: "(nat \<Rightarrow> nat) \<Rightarrow> nat \<Rightarrow> nat \<Rightarrow> board \<Rightarrow> board option" where
  "removeCells pk j attempts puzzle =
     (if attempts > 0 then
        (if puzzle ! (pk j) ! (pk (Suc j)) \<noteq> BLANK
         then removeCells pk (j + 2) (attempts - 1) (setCell puzzle (pk j) (pk (Suc j)) BLANK)
         else removeCells pk (j + 2) attempts puzzle)
      else Some puzzle)"

declare removeCells.simps [code]

record rsource =
  shuffles :: "nat \<Rightarrow> nat list"
  picks :: "nat \<Rightarrow> nat"

definition generatePuzzle :: "rsource \<Rightarrow> difficulty \<Rightarrow> (board \<times> board) option" where
  "generatePuzzle rnd d =
     (case generateFullBoard (shuffles rnd) of
        None \<Rightarrow> None
      | Some solution \<Rightarrow>
          (case removeCells (picks rnd) 0 (budget d) solution of
             None \<Rightarrow> None
           | Some puzzle \<Rightarrow> Some (solution, puzzle)))"

text \<open>
  What the random source can deliver: every shuffle is a rearrangement of 1..9 and
  every pick is in \<open>0..8\<close>.
\<close>

definition fair :: "rsource \<Rightarrow> bool" where
  "fair rnd \<longleftrightarrow> (\<forall>k. mset (shuffles rnd k) = mset [1..<10]) \<and> (\<forall>j. picks rnd j < 9)"

text \<open>
  A concrete random source: the shuffles put first the digit that the pattern
  \<open>canon\<close> has at the cell the solver is at, the picks walk through the cells in
  row-major order.
\<close>

definition canon :: "nat \<Rightarrow> nat \<Rightarrow> nat" where
  "canon r c = (3 * (r mod 3) + r div 3 + c) mod 9 + 1"

definition demoSource :: rsource where
  "demoSource = \<lparr> shuffles = (\<lambda>k. if k = 0 then [1..<10]
                                 else rotate (canon ((k + 8) div 9) ((k + 8) mod 9) - 1) [1..<10]),
                  picks = (\<lambda>j. if even j then ((j div 2) div 9) mod 9 else (j div 2) mod 9) \<rparr>"

section \<open>The play session (app.jsx, lines 92-236)\<close>

text \<open>
  Two pieces of JavaScript that the memo code relies on. A number is turned into its
  decimal string (for the key \<open>`${r}-${c}`\<close> of a cell, and by \<open>sort()\<close>); and
  \<open>sort()\<close> without a comparator orders the elements by their strings, compared code
  unit by code unit, keeping the order of equal elements.
\<close>

definition digit_char :: "nat \<Rightarrow> char" where
  "digit_char n = char_of (48 + n)"

fun js_toString :: "nat \<Rightarrow> string" where
  "js_toString n =
     (if n < 10 then [digit_char n] else js_toString (n div 10) @ [digit_char (n mod 10)])"

declare js_toString.simps [simp del]

definition cellKey :: "nat \<Rightarrow> nat \<Rightarrow> string" where
  "cellKey r c = js_toString r @ ''-'' @ js_toString c"

fun js_str_less :: "string \<Rightarrow> string \<Rightarrow> bool" where
  "js_str_less xs [] = False"
| "js_str_less [] (y # ys) = True"
| "js_str_less (x # xs) (y # ys) =
     ((of_char x :: nat) < of_char y \<or> ((of_char x :: nat) = of_char y \<and> js_str_less xs ys))"

fun js_insort :: "nat \<Rightarrow> nat list \<Rightarrow> nat list" where
  "js_insort x [] = [x]"
| "js_insort x (y # ys) =
     (if js_str_less (js_toString y) (js_toString x) then y # js_insort x ys else x # y # ys)"

definition js_sort :: "nat list \<Rightarrow> nat list" where
  "js_sort xs = foldr js_insort xs []"

text \<open>The state variables of \<open>App\<close>, with their \<open>useState\<close> initial values.\<close>

record session =
  difficulty :: difficulty
  initialBoard :: board
  board :: board
  solution :: board
  selectedCell :: "(nat \<times> nat) option"
  memos :: "string \<Rightarrow> nat list option"
  isMemoMode :: bool
  mistakes :: nat
  isComplete :: bool

definition initState :: session where
  "initState = \<lparr> difficulty = Easy, initialBoard = getEmptyBoard, board = getEmptyBoard,
                 solution = getEmptyBoard, selectedCell = None, memos = Map.empty,
                 isMemoMode = False, mistakes = 0, isComplete = False \<rparr>"

text \<open>\<open>startNewGame\<close>: \<open>None\<close> when \<open>generatePuzzle\<close> does not return.\<close>

definition startNewGame :: "rsource \<Rightarrow> difficulty \<Rightarrow> session \<Rightarrow> session option" where
  "startNewGame rnd diff s =
     (case generatePuzzle rnd diff of
        None \<Rightarrow> None
      | Some (newSolution, newPuzzle) \<Rightarrow>
          Some (s\<lparr> solution := newSolution, initialBoard := newPuzzle, board := newPuzzle,
                  memos := Map.empty, mistakes := 0, isComplete := False,
                  selectedCell := None \<rparr>))"

text \<open>\<open>checkCompletion\<close> returns at the first differing cell, else sets the flag.\<close>

definition boardsMatch :: "board \<Rightarrow> board \<Rightarrow> bool" where
  "boardsMatch currentBoard solutionBoard =
     list_all (\<lambda>i. list_all (\<lambda>j. currentBoard ! i ! j = solutionBoard ! i ! j) [0..<GRID_SIZE])
              [0..<GRID_SIZE]"

definition checkCompletion :: "board \<Rightarrow> board \<Rightarrow> session \<Rightarrow> session" where
  "checkCompletion currentBoard solutionBoard s =
     (if boardsMatch currentBoard solutionBoard then s\<lparr> isComplete := True \<rparr> else s)"

definition handleNumberInput :: "nat \<Rightarrow> session \<Rightarrow> session" where
  "handleNumberInput num s =
     (case selectedCell s of
        None \<Rightarrow> s
      | Some (r, c) \<Rightarrow>
          if isComplete s then s
          else if initialBoard s ! r ! c \<noteq> BLANK then s
          else if isMemoMode s then
            (let key = cellKey r c;
                 currentMemos = (case memos s key of None \<Rightarrow> [] | Some l \<Rightarrow> l);
                 newMemos = (if num \<in> set currentMemos
                             then filter (\<lambda>n. n \<noteq> num) currentMemos
                             else js_sort (currentMemos @ [num]))
             in s\<lparr> memos := (memos s)(key \<mapsto> newMemos) \<rparr>)
          else if board s ! r ! c = num then
            (let newBoard = setCell (board s) r c BLANK
             in checkCompletion newBoard (solution s) (s\<lparr> board := newBoard \<rparr>))
          else
            (let newBoard = setCell (board s) r c num;
                 s1 = (if num \<noteq> solution s ! r ! c
                       then s\<lparr> mistakes := mistakes s + 1 \<rparr>
                       else if memos s (cellKey r c) \<noteq> None
                            then s\<lparr> memos := (memos s)(cellKey r c := None) \<rparr>
                            else s)
             in checkCompletion newBoard (solution s) (s1\<lparr> board := newBoard \<rparr>)))"

definition handleErase :: "session \<Rightarrow> session" where
  "handleErase s =
     (case selectedCell s of
        None \<Rightarrow> s
      | Some (r, c) \<Rightarrow>
          if isComplete s then s
          else if initialBoard s ! r ! c \<noteq> BLANK then s
          else s\<lparr> board := setCell (board s) r c BLANK \<rparr>)"

text \<open>
  What the player can do: the mount effect and the reset button (\<open>NewGame\<close>), the
  difficulty selector, a click on a cell, the arrow keys, a digit (key or number pad),
  erase, and the memo switch. A new game carries the random source it consumes.
\<close>

datatype arrow = ArrowUp | ArrowDown | ArrowLeft | ArrowRight

datatype event =
    NewGame rsource
  | ChangeDifficulty difficulty rsource
  | SelectCell nat nat
  | ArrowKey arrow
  | NumberInput nat
  | Erase
  | ToggleMemo

definition moveSelection :: "arrow \<Rightarrow> session \<Rightarrow> session" where
  "moveSelection a s =
     (if isComplete s then s
      else case selectedCell s of
        None \<Rightarrow> s
      | Some (r, c) \<Rightarrow>
          (case a of
             ArrowUp \<Rightarrow> s\<lparr> selectedCell := Some (max 0 (r - 1), c) \<rparr>
           | ArrowDown \<Rightarrow> s\<lparr> selectedCell := Some (min 8 (r + 1), c) \<rparr>
           | ArrowLeft \<Rightarrow> s\<lparr> selectedCell := Some (r, max 0 (c - 1)) \<rparr>
           | ArrowRight \<Rightarrow> s\<lparr> selectedCell := Some (r, min 8 (c + 1)) \<rparr>))"

fun step :: "event \<Rightarrow> session \<Rightarrow> session option" where
  "step (NewGame rnd) s = startNewGame rnd (difficulty s) s"
| "step (ChangeDifficulty d rnd) s = startNewGame rnd d (s\<lparr> difficulty := d \<rparr>)"
| "step (SelectCell r c) s = Some (s\<lparr> selectedCell := Some (r, c) \<rparr>)"
| "step (ArrowKey a) s = Some (moveSelection a s)"
| "step (NumberInput num) s = Some (handleNumberInput num s)"
| "step Erase s = Some (handleErase s)"
| "step ToggleMemo s = Some (s\<lparr> isMemoMode := \<not> isMemoMode s \<rparr>)"

fun run :: "event list \<Rightarrow> session \<Rightarrow> session option" where
  "run [] s = Some s"
| "run (e # es) s = (case step e s of None \<Rightarrow> None | Some s' \<Rightarrow> run es s')"

text \<open>
  The events the interface can deliver: cells of the grid, digits 1-9, random sources
  as described by \<open>fair\<close>. A session state is what \<open>run\<close> reaches from \<open>initState\<close>
  when the first event is the new game started by the mount effect.
\<close>

fun ev_ok :: "event \<Rightarrow> bool" where
  "ev_ok (NewGame rnd) = fair rnd"
| "ev_ok (ChangeDifficulty d rnd) = fair rnd"
| "ev_ok (SelectCell r c) = (r < 9 \<and> c < 9)"
| "ev_ok (NumberInput num) = (1 \<le> num \<and> num \<le> 9)"
| "ev_ok _ = True"

definition reaches :: "rsource \<Rightarrow> event list \<Rightarrow> session \<Rightarrow> bool" where
  "reaches rnd evs s \<longleftrightarrow>
     fair rnd \<and> list_all ev_ok evs \<and> run (NewGame rnd # evs) initState = Some s"

section \<open>Notions used to state the properties\<close>

text \<open>The shape of every board the program builds: 9 rows of 9 cells.\<close>

definition wf_board :: "board \<Rightarrow> bool" where
  "wf_board b \<longleftrightarrow> length b = 9 \<and> list_all (\<lambda>row. length row = 9) b"

text \<open>
  \<open>sameUnit row col r c\<close>: the cell \<open>(r, c)\<close> lies in the row, in the column or in the
  3x3 box of \<open>(row, col)\<close>; the box of a cell is \<open>(row div 3, col div 3)\<close>.
\<close>

definition sameUnit :: "nat \<Rightarrow> nat \<Rightarrow> nat \<Rightarrow> nat \<Rightarrow> bool" where
  "sameUnit row col r c \<longleftrightarrow> r = row \<or> c = col \<or> (r div 3 = row div 3 \<and> c div 3 = col div 3)"

definition occursInUnits :: "board \<Rightarrow> nat \<Rightarrow> nat \<Rightarrow> nat \<Rightarrow> bool" where
  "occursInUnits b row col num \<longleftrightarrow>
     list_ex (\<lambda>r. list_ex (\<lambda>c. sameUnit row col r c \<and> b ! r ! c = num) [0..<9]) [0..<9]"

definition occursElsewhere :: "board \<Rightarrow> nat \<Rightarrow> nat \<Rightarrow> nat \<Rightarrow> bool" where
  "occursElsewhere b row col num \<longleftrightarrow>
     list_ex (\<lambda>r. list_ex (\<lambda>c. (r, c) \<noteq> (row, col) \<and> sameUnit row col r c \<and> b ! r ! c = num)
                  [0..<9]) [0..<9]"

text \<open>
  Concrete sessions. \<open>demoSolution\<close> and \<open>demoPuzzle\<close> are what \<open>generatePuzzle\<close>
  returns for \<open>demoSource\<close> and \<open>Easy\<close> (lemma \<open>demo_generate\<close>), \<open>demoStart\<close> the
  session the mount effect builds from them; \<open>demoRun evs\<close> is the state after mounting
  with \<open>demoSource\<close> and then handling \<open>evs\<close>; \<open>fillEvents n\<close> selects the first \<open>n\<close>
  cells in row-major order and enters the digit of \<open>canon\<close> in each.
\<close>

definition demoSolution :: board where
  "demoSolution =
     [[1, 2, 3, 4, 5, 6, 7, 8, 9], [4, 5, 6, 7, 8, 9, 1, 2, 3], [7, 8, 9, 1, 2, 3, 4, 5, 6],
      [2, 3, 4, 5, 6, 7, 8, 9, 1], [5, 6, 7, 8, 9, 1, 2, 3, 4], [8, 9, 1, 2, 3, 4, 5, 6, 7],
      [3, 4, 5, 6, 7, 8, 9, 1, 2], [6, 7, 8, 9, 1, 2, 3, 4, 5], [9, 1, 2, 3, 4, 5, 6, 7, 8]]"

definition demoPuzzle :: board where
  "demoPuzzle =
     [[0, 0, 0, 0, 0, 0, 0, 0, 0], [0, 0, 0, 0, 0, 0, 0, 0, 0], [0, 0, 0, 0, 0, 0, 0, 0, 0],
      [0, 0, 0, 5, 6, 7, 8, 9, 1], [5, 6, 7, 8, 9, 1, 2, 3, 4], [8, 9, 1, 2, 3, 4, 5, 6, 7],
      [3, 4, 5, 6, 7, 8, 9, 1, 2], [6, 7, 8, 9, 1, 2, 3, 4, 5], [9, 1, 2, 3, 4, 5, 6, 7, 8]]"

definition demoStart :: session where
  "demoStart = initState\<lparr> solution := demoSolution, initialBoard := demoPuzzle,
                           board := demoPuzzle \<rparr>"

definition demoRun :: "event list \<Rightarrow> session" where
  "demoRun evs = the (run (NewGame demoSource # evs) initState)"

definition fillEvents :: "nat \<Rightarrow> event list" where
  "fillEvents n =
     concat (map (\<lambda>i. [SelectCell (i div 9) (i mod 9), NumberInput (canon (i div 9) (i mod 9))])
                 [0..<n])"

definition lastCellState :: session where
  "lastCellState = demoRun (fillEvents 29 @ [SelectCell 3 2])"

definition oneMemoState :: session where
  "oneMemoState = demoRun [SelectCell 0 0, ToggleMemo, NumberInput 4]"

definition firstCellState :: session where
  "firstCellState = demoRun [SelectCell 0 0]"

text \<open>
  Notions for the solver. \<open>blankCells\<close> is the set of blank cells of the grid;
  \<open>consistent\<close>: no non-blank cell has its value repeated in its row, column or box;
  \<open>digitsOnly\<close>: no cell exceeds 9; \<open>noBlank\<close>: no cell is blank; \<open>solved\<close>: all of
  these on a 9x9 board; \<open>extends s b\<close>: \<open>s\<close> agrees with \<open>b\<close> on the non-blank cells
  of \<open>b\<close>.
\<close>

definition blankCells :: "board \<Rightarrow> (nat \<times> nat) set" where
  "blankCells b = {(r, c). r < 9 \<and> c < 9 \<and> b ! r ! c = BLANK}"

definition consistent :: "board \<Rightarrow> bool" where
  "consistent b \<longleftrightarrow>
     list_all (\<lambda>r. list_all (\<lambda>c. list_all (\<lambda>r'. list_all (\<lambda>c'.
         b ! r ! c \<noteq> BLANK \<and> (r', c') \<noteq> (r, c) \<and> sameUnit r c r' c' \<longrightarrow> b ! r' ! c' \<noteq> b ! r ! c)
       [0..<9]) [0..<9]) [0..<9]) [0..<9]"

definition digitsOnly :: "board \<Rightarrow> bool" where
  "digitsOnly b \<longleftrightarrow> list_all (\<lambda>r. list_all (\<lambda>c. b ! r ! c \<le> 9) [0..<9]) [0..<9]"

definition noBlank :: "board \<Rightarrow> bool" where
  "noBlank b \<longleftrightarrow> list_all (\<lambda>r. list_all (\<lambda>c. b ! r ! c \<noteq> BLANK) [0..<9]) [0..<9]"

definition solved :: "board \<Rightarrow> bool" where
  "solved b \<longleftrightarrow> wf_board b \<and> consistent b \<and> digitsOnly b \<and> noBlank b"

definition extends :: "board \<Rightarrow> board \<Rightarrow> bool" where
  "extends s b \<longleftrightarrow>
     list_all (\<lambda>r. list_all (\<lambda>c. b ! r ! c \<noteq> BLANK \<longrightarrow> s ! r ! c = b ! r ! c) [0..<9]) [0..<9]"

text \<open>
  What claim C1 says of a board: every row, every column and every box holds each of
  the digits 1-9 exactly once. Box \<open>i\<close> is the one at box row \<open>i div 3\<close>, box column
  \<open>i mod 3\<close>.
\<close>

definition rowAt :: "board \<Rightarrow> nat \<Rightarrow> nat list" where
  "rowAt b i = b ! i"

definition colAt :: "board \<Rightarrow> nat \<Rightarrow> nat list" where
  "colAt b i = map (\<lambda>r. b ! r ! i) [0..<9]"

definition boxAt :: "board \<Rightarrow> nat \<Rightarrow> nat list" where
  "boxAt b i = map (\<lambda>k. b ! (3 * (i div 3) + k div 3) ! (3 * (i mod 3) + k mod 3)) [0..<9]"

definition eachOnce :: "nat list \<Rightarrow> bool" where
  "eachOnce xs \<longleftrightarrow> length xs = 9 \<and> list_all (\<lambda>d. count_list xs d = 1) [1..<10]"

definition sudokuSolution :: "board \<Rightarrow> bool" where
  "sudokuSolution b \<longleftrightarrow>
     length b = 9 \<and>
     list_all (\<lambda>i. eachOnce (rowAt b i) \<and> eachOnce (colAt b i) \<and> eachOnce (boxAt b i)) [0..<9]"

text \<open>\<open>relabel p b\<close> replaces every digit \<open>v\<close> of \<open>b\<close> by the \<open>v\<close>-th element of \<open>p\<close>.\<close>

definition relabel :: "nat list \<Rightarrow> board \<Rightarrow> board" where
  "relabel p b = map (map (\<lambda>v. p ! (v - 1))) b"

text \<open>The number of non-blank cells of a board.\<close>

definition countNonBlank :: "board \<Rightarrow> nat" where
  "countNonBlank b = length (filter (\<lambda>v. v \<noteq> BLANK) (concat b))"

text \<open>
  The invariant of a session: the shape of the boards, a solved solution, a selection
  inside the grid, given cells equal to puzzle and solution, the completion flag equal
  to the comparison of the boards, and well-formed annotation entries.
\<close>

definition memoEntryOk :: "nat list \<Rightarrow> bool" where
  "memoEntryOk l \<longleftrightarrow> sorted l \<and> distinct l \<and> set l \<subseteq> {1..9}"

definition sessionInv :: "session \<Rightarrow> bool" where
  "sessionInv s \<longleftrightarrow>
     wf_board (board s) \<and> wf_board (initialBoard s) \<and> solved (solution s) \<and>
     (\<forall>r c. selectedCell s = Some (r, c) \<longrightarrow> r < 9 \<and> c < 9) \<and>
     (\<forall>r<9. \<forall>c<9. initialBoard s ! r ! c \<noteq> BLANK \<longrightarrow>
          board s ! r ! c = initialBoard s ! r ! c \<and> initialBoard s ! r ! c = solution s ! r ! c) \<and>
     (isComplete s \<longleftrightarrow> boardsMatch (board s) (solution s)) \<and>
     (\<forall>key l. memos s key = Some l \<longrightarrow> memoEntryOk l)"

text \<open>The events that do not start a new game.\<close>

fun playEvent :: "event \<Rightarrow> bool" where
  "playEvent (NewGame rnd) = False"
| "playEvent (ChangeDifficulty d rnd) = False"
| "playEvent _ = True"

definition wrongDigitState :: session where
  "wrongDigitState = demoRun [SelectCell 0 0, ToggleMemo, NumberInput 2, ToggleMemo, NumberInput 3]"

definition memoBeforePlaceState :: session where
  "memoBeforePlaceState = demoRun [SelectCell 0 0, ToggleMemo, NumberInput 2, ToggleMemo]"

definition completedState :: session where
  "completedState = demoRun (fillEvents 30)"

definition twoMemoState :: session where
  "twoMemoState = demoRun [SelectCell 0 0, ToggleMemo, NumberInput 4, NumberInput 2]"

definition givenProbe :: "event list" where
  "givenProbe = [SelectCell 4 4, NumberInput 1, Erase, SelectCell 0 0, NumberInput 5, Erase]"


section \<open>The placement rule\<close>

lemma box_start: "row - row mod 3 = 3 * (row div 3)" for row :: nat
  by (simp add: minus_mod_eq_mult_div)

lemma box_index: "(r div 3 = row div 3) = (\<exists>i<3. r = i + (row - row mod 3))" for r row :: nat
proof
  assume h: "r div 3 = row div 3"
  have "r = r mod 3 + 3 * (r div 3)" by simp
  then have "r = r mod 3 + (row - row mod 3)" using h by (simp add: box_start)
  moreover have "r mod 3 < 3" by simp
  ultimately show "\<exists>i<3. r = i + (row - row mod 3)" by blast
next
  assume "\<exists>i<3. r = i + (row - row mod 3)"
  then obtain i where "i < 3" "r = i + 3 * (row div 3)" by (auto simp: box_start)
  then show "r div 3 = row div 3" by simp
qed

lemma box_bound: "row < 9 \<Longrightarrow> i < 3 \<Longrightarrow> i + (row - row mod 3) < 9" for row i :: nat
  by arith

lemma isSafe_unfold:
  "isSafe b row col num \<longleftrightarrow>
     (\<forall>x<9. b ! row ! x \<noteq> num) \<and> (\<forall>x<9. b ! x ! col \<noteq> num) \<and>
     (\<forall>i<3. \<forall>j<3. b ! (i + (row - row mod 3)) ! (j + (col - col mod 3)) \<noteq> num)"
  unfolding isSafe_def GRID_SIZE_def list_ex_iff Let_def by (simp add: Bex_def)

lemma occursInUnits_iff:
  "occursInUnits b row col num \<longleftrightarrow> (\<exists>r<9. \<exists>c<9. sameUnit row col r c \<and> b ! r ! c = num)"
  unfolding occursInUnits_def list_ex_iff by (simp add: Bex_def)

lemma occursElsewhere_iff:
  "occursElsewhere b row col num \<longleftrightarrow>
     (\<exists>r<9. \<exists>c<9. (r, c) \<noteq> (row, col) \<and> sameUnit row col r c \<and> b ! r ! c = num)"
  unfolding occursElsewhere_def list_ex_iff by (simp add: Bex_def)

lemma isSafe_sameUnit:
  assumes "row < 9" "col < 9"
  shows "isSafe b row col num \<longleftrightarrow> (\<forall>r<9. \<forall>c<9. sameUnit row col r c \<longrightarrow> b ! r ! c \<noteq> num)"
proof
  assume s: "isSafe b row col num"
  show "\<forall>r<9. \<forall>c<9. sameUnit row col r c \<longrightarrow> b ! r ! c \<noteq> num"
  proof (intro allI impI)
    fix r c assume rc: "r < 9" "c < 9" and u: "sameUnit row col r c"
    from u consider "r = row" | "c = col" | "r div 3 = row div 3 \<and> c div 3 = col div 3"
      by (auto simp: sameUnit_def)
    then show "b ! r ! c \<noteq> num"
    proof cases
      case 1 then show ?thesis using s rc by (simp add: isSafe_unfold)
    next
      case 2 then show ?thesis using s rc by (simp add: isSafe_unfold)
    next
      case 3
      then obtain i j where "i < 3" "r = i + (row - row mod 3)" "j < 3" "c = j + (col - col mod 3)"
        using box_index by blast
      then show ?thesis using s by (simp add: isSafe_unfold)
    qed
  qed
next
  assume a: "\<forall>r<9. \<forall>c<9. sameUnit row col r c \<longrightarrow> b ! r ! c \<noteq> num"
  have "\<forall>x<9. b ! row ! x \<noteq> num" using a assms by (simp add: sameUnit_def)
  moreover have "\<forall>x<9. b ! x ! col \<noteq> num" using a assms by (simp add: sameUnit_def)
  moreover have "\<forall>i<3. \<forall>j<3. b ! (i + (row - row mod 3)) ! (j + (col - col mod 3)) \<noteq> num"
  proof (intro allI impI)
    fix i j :: nat assume ij: "i < 3" "j < 3"
    have "(i + (row - row mod 3)) div 3 = row div 3" "(j + (col - col mod 3)) div 3 = col div 3"
      using ij box_index by blast+
    then have "sameUnit row col (i + (row - row mod 3)) (j + (col - col mod 3))"
      by (simp add: sameUnit_def)
    then show "b ! (i + (row - row mod 3)) ! (j + (col - col mod 3)) \<noteq> num"
      using a box_bound[OF assms(1) ij(1)] box_bound[OF assms(2) ij(2)] by blast
  qed
  ultimately show "isSafe b row col num" by (simp add: isSafe_unfold)
qed

text \<open>
  Claim C7, as the code has it. For a 9x9 board, a cell \<open>(row, col)\<close> of the grid and a
  digit 1-9, \<open>isSafe\<close> is false exactly when the digit occurs anywhere in the row, in
  the column or in the 3x3 box of the cell, the cell \<open>(row, col)\<close> itself included.
  When the cell does not hold the digit this is the same as "occurs elsewhere"; when it
  does, \<open>isSafe\<close> is false whatever the other cells hold.
\<close>

theorem isSafe_checks_whole_units:
  assumes "wf_board b" "row < 9" "col < 9" "1 \<le> num" "num \<le> 9"
  shows "isSafe b row col num = (\<not> occursInUnits b row col num) \<and>
         (b ! row ! col \<noteq> num \<longrightarrow> isSafe b row col num = (\<not> occursElsewhere b row col num)) \<and>
         (b ! row ! col = num \<longrightarrow> \<not> isSafe b row col num)"
proof -
  have 1: "isSafe b row col num = (\<not> occursInUnits b row col num)"
    unfolding occursInUnits_iff isSafe_sameUnit[OF assms(2,3)] by blast
  have 2: "b ! row ! col \<noteq> num \<Longrightarrow> occursElsewhere b row col num = occursInUnits b row col num"
    unfolding occursInUnits_iff occursElsewhere_iff by blast
  have 3: "b ! row ! col = num \<Longrightarrow> occursInUnits b row col num"
    unfolding occursInUnits_iff using assms(2,3) sameUnit_def by blast
  show ?thesis using 1 2 3 by blast
qed

theorem isSafe_checks_whole_units_witness:
  "wf_board (setCell getEmptyBoard 0 4 7) \<and> (2::nat) < 9 \<and> (3::nat) < 9 \<and>
   (1::nat) \<le> 7 \<and> (7::nat) \<le> 9 \<and>
   isSafe (setCell getEmptyBoard 0 4 7) 2 3 7 =
     (\<not> occursInUnits (setCell getEmptyBoard 0 4 7) 2 3 7) \<and>
   setCell getEmptyBoard 0 4 7 ! 2 ! 3 \<noteq> 7 \<and>
   isSafe (setCell getEmptyBoard 0 4 7) 2 3 7 =
     (\<not> occursElsewhere (setCell getEmptyBoard 0 4 7) 2 3 7)"
proof -
  have w: "wf_board (setCell getEmptyBoard 0 4 7)" by code_simp
  have n: "setCell getEmptyBoard 0 4 7 ! 2 ! 3 \<noteq> 7" by code_simp
  have a: "(2::nat) < 9" "(3::nat) < 9" "(1::nat) \<le> 7" "(7::nat) \<le> 9" by simp_all
  from isSafe_checks_whole_units[OF w a] w n a show ?thesis by blast
qed

text \<open>
  Claim C7 as stated fails where the cell itself holds the digit: on the board whose
  only entry is a 5 at \<open>(0, 0)\<close>, the 5 occurs nowhere else in row 0, column 0 or the
  first box, yet \<open>isSafe\<close> at \<open>(0, 0)\<close> for 5 is false.
\<close>

theorem isSafe_own_cell_counterexample:
  "\<not> occursElsewhere (setCell getEmptyBoard 0 0 5) 0 0 5 \<and>
   isSafe (setCell getEmptyBoard 0 0 5) 0 0 5 = False"
  by code_simp

section \<open>The concrete random source and sessions\<close>

lemma mset_rotate1_eq: "mset (rotate1 xs) = mset xs"
  by (cases xs) simp_all

lemma mset_rotate_eq: "mset (rotate n xs) = mset xs"
  by (induction n) (simp_all add: mset_rotate1_eq)

lemma fair_demoSource: "fair demoSource"
  unfolding fair_def demoSource_def by (simp add: mset_rotate_eq del: mset_upt)

lemma demo_generate: "generatePuzzle demoSource Easy = Some (demoSolution, demoPuzzle)"
  by code_simp

lemma demo_mount: "run (NewGame demoSource # evs) initState = run evs demoStart"
  by (simp add: startNewGame_def demo_generate initState_def demoStart_def)

lemma demoRun_eq: "demoRun evs = the (run evs demoStart)"
  unfolding demoRun_def demo_mount ..

lemma canon_range: "1 \<le> canon r c \<and> canon r c \<le> 9"
  by (simp add: canon_def Suc_le_eq)

lemma fillEvents_ok: "n \<le> 81 \<Longrightarrow> list_all ev_ok (fillEvents n)"
  unfolding fillEvents_def list_all_iff using canon_range by (auto simp: less_mult_imp_div_less)

section \<open>Single operations of the session\<close>

lemma wf_board_length: "wf_board b \<Longrightarrow> length b = 9"
  by (simp add: wf_board_def)

lemma wf_board_row: "wf_board b \<Longrightarrow> r < 9 \<Longrightarrow> length (b ! r) = 9"
  by (simp add: wf_board_def list_all_length)

lemma nth_setCell:
  "r < length b \<Longrightarrow> c < length (b ! r) \<Longrightarrow>
   setCell b r c v ! r' ! c' = (if r' = r \<and> c' = c then v else b ! r' ! c')"
  by (cases "r' = r"; cases "c' = c") (simp_all add: setCell_def)

lemma nth_setCell_wf:
  "wf_board b \<Longrightarrow> r < 9 \<Longrightarrow> c < 9 \<Longrightarrow>
   setCell b r c v ! r' ! c' = (if r' = r \<and> c' = c then v else b ! r' ! c')"
  by (simp add: nth_setCell wf_board_length wf_board_row)

lemma wf_board_setCell: "wf_board b \<Longrightarrow> wf_board (setCell b r c v)"
  unfolding wf_board_def setCell_def list_all_length
  by (metis length_list_update nth_list_update_eq nth_list_update_neq)

lemma checkCompletion_fields [simp]:
  "board (checkCompletion nb sol s) = board s"
  "mistakes (checkCompletion nb sol s) = mistakes s"
  "memos (checkCompletion nb sol s) = memos s"
  "selectedCell (checkCompletion nb sol s) = selectedCell s"
  "initialBoard (checkCompletion nb sol s) = initialBoard s"
  "solution (checkCompletion nb sol s) = solution s"
  "isMemoMode (checkCompletion nb sol s) = isMemoMode s"
  "difficulty (checkCompletion nb sol s) = difficulty s"
  by (simp_all add: checkCompletion_def)

lemma checkCompletion_flag:
  "isComplete (checkCompletion nb sol s) = (isComplete s \<or> boardsMatch nb sol)"
  by (simp add: checkCompletion_def)

text \<open>
  Claim C9. In memo mode, on a selected editable cell of a game in progress whose
  annotation entry holds the digit \<open>d\<close> and nothing else, \<open>handleNumberInput d\<close> leaves
  the key of the cell in the map, bound to the empty list.
\<close>

theorem memo_last_digit_leaves_empty_entry:
  assumes "selectedCell s = Some (r, c)" "\<not> isComplete s" "initialBoard s ! r ! c = BLANK"
    and "isMemoMode s" "memos s (cellKey r c) = Some l" "set l = {d}"
  shows "memos (handleNumberInput d s) (cellKey r c) = Some [] \<and>
         cellKey r c \<in> dom (memos (handleNumberInput d s))"
proof -
  have "filter (\<lambda>n. n \<noteq> d) l = []" using assms(6) by (auto simp: filter_empty_conv)
  then show ?thesis using assms by (simp add: handleNumberInput_def Let_def)
qed

theorem memo_last_digit_leaves_empty_entry_witness:
  "selectedCell oneMemoState = Some (0, 0) \<and> \<not> isComplete oneMemoState \<and>
   initialBoard oneMemoState ! 0 ! 0 = BLANK \<and> isMemoMode oneMemoState \<and>
   memos oneMemoState (cellKey 0 0) = Some [4] \<and> set [4::nat] = {4} \<and>
   memos (handleNumberInput 4 oneMemoState) (cellKey 0 0) = Some [] \<and>
   cellKey 0 0 \<in> dom (memos (handleNumberInput 4 oneMemoState))"
proof -
  have h: "selectedCell oneMemoState = Some (0, 0)" "\<not> isComplete oneMemoState"
    "initialBoard oneMemoState ! 0 ! 0 = BLANK" "isMemoMode oneMemoState"
    "memos oneMemoState (cellKey 0 0) = Some [4]"
    unfolding oneMemoState_def demoRun_eq by code_simp+
  have e: "set [4::nat] = {4}" by simp
  from memo_last_digit_leaves_empty_entry[OF h e] h e show ?thesis by blast
qed

text \<open>
  Claim C5, as the code has it. In a game in progress, with memo mode off and a blank
  editable cell selected, entering a digit \<open>d\<close> of 1-9 twice in a row: the first call
  adds one mistake exactly when \<open>d\<close> differs from the solution there, the second call
  adds none; the cell is blank again afterwards unless the first call completed the
  board, in which case the second call is ignored and the cell keeps \<open>d\<close>.
\<close>

theorem place_twice:
  assumes sel: "selectedCell s = Some (r, c)" and rc: "r < 9" "c < 9"
    and wf: "wf_board (board s)"
    and run: "\<not> isComplete s" and ed: "initialBoard s ! r ! c = BLANK"
    and bl: "board s ! r ! c = BLANK" and memo: "\<not> isMemoMode s"
    and d: "1 \<le> d" "d \<le> 9"
  shows "mistakes (handleNumberInput d s) =
           mistakes s + (if d \<noteq> solution s ! r ! c then 1 else 0) \<and>
         mistakes (handleNumberInput d (handleNumberInput d s)) = mistakes (handleNumberInput d s) \<and>
         (\<not> isComplete (handleNumberInput d s) \<longrightarrow>
            board (handleNumberInput d (handleNumberInput d s)) ! r ! c = BLANK) \<and>
         (isComplete (handleNumberInput d s) \<longrightarrow>
            board (handleNumberInput d (handleNumberInput d s)) ! r ! c = d)"
proof -
  let ?s1 = "handleNumberInput d s"
  have ne: "board s ! r ! c \<noteq> d" using bl d by (simp add: BLANK_def)
  have b1: "board ?s1 = setCell (board s) r c d"
    using sel run ed memo ne by (simp add: handleNumberInput_def Let_def)
  have m1: "mistakes ?s1 = mistakes s + (if d \<noteq> solution s ! r ! c then 1 else 0)"
    using sel run ed memo ne by (simp add: handleNumberInput_def Let_def)
  have k1: "selectedCell ?s1 = Some (r, c)" "initialBoard ?s1 = initialBoard s"
    "isMemoMode ?s1 = isMemoMode s"
    using sel run ed memo ne by (simp_all add: handleNumberInput_def Let_def)
  have c1: "board ?s1 ! r ! c = d" using b1 wf rc by (simp add: nth_setCell_wf)
  have w1: "wf_board (board ?s1)" using b1 wf by (simp add: wf_board_setCell)
  have fin: "isComplete ?s1 \<Longrightarrow> handleNumberInput d ?s1 = ?s1"
    using k1 by (simp add: handleNumberInput_def[of d ?s1])
  have again: "\<not> isComplete ?s1 \<Longrightarrow>
       board (handleNumberInput d ?s1) = setCell (board ?s1) r c BLANK \<and>
       mistakes (handleNumberInput d ?s1) = mistakes ?s1"
    using k1 c1 ed memo by (simp add: handleNumberInput_def[of d ?s1] Let_def)
  have "\<not> isComplete ?s1 \<Longrightarrow> board (handleNumberInput d ?s1) ! r ! c = BLANK"
    using again w1 rc by (simp add: nth_setCell_wf)
  then show ?thesis using m1 fin again c1 by metis
qed

theorem place_twice_witness:
  "selectedCell firstCellState = Some (0, 0) \<and> (0::nat) < 9 \<and> wf_board (board firstCellState) \<and>
   \<not> isComplete firstCellState \<and> initialBoard firstCellState ! 0 ! 0 = BLANK \<and>
   board firstCellState ! 0 ! 0 = BLANK \<and> \<not> isMemoMode firstCellState \<and>
   (1::nat) \<le> 5 \<and> (5::nat) \<le> 9 \<and>
   mistakes (handleNumberInput 5 firstCellState) = mistakes firstCellState + 1 \<and>
   mistakes (handleNumberInput 5 (handleNumberInput 5 firstCellState)) =
     mistakes (handleNumberInput 5 firstCellState) \<and>
   board (handleNumberInput 5 (handleNumberInput 5 firstCellState)) ! 0 ! 0 = BLANK"
proof -
  have h: "selectedCell firstCellState = Some (0, 0)" "(0::nat) < 9" "(0::nat) < 9"
    "wf_board (board firstCellState)" "\<not> isComplete firstCellState"
    "initialBoard firstCellState ! 0 ! 0 = BLANK" "board firstCellState ! 0 ! 0 = BLANK"
    "\<not> isMemoMode firstCellState" "(1::nat) \<le> 5" "(5::nat) \<le> 9"
    unfolding firstCellState_def demoRun_eq by code_simp+
  have w: "5 \<noteq> solution firstCellState ! 0 ! 0" "\<not> isComplete (handleNumberInput 5 firstCellState)"
    unfolding firstCellState_def demoRun_eq by code_simp+
  from place_twice[OF h] h w show ?thesis by simp
qed

text \<open>
  Claim C5 as stated fails on the last move of a game. \<open>lastCellState\<close> is reached by
  mounting and entering the right digit in 29 of the 30 blank cells; the remaining
  blank editable cell \<open>(3, 2)\<close> is selected, memo mode is off. Entering 4 (the right
  digit) completes the board, the second 4 is ignored, and the cell holds 4, not BLANK.
\<close>

theorem place_twice_last_cell_counterexample:
  "selectedCell lastCellState = Some (3, 2) \<and> \<not> isComplete lastCellState \<and>
   \<not> isMemoMode lastCellState \<and> initialBoard lastCellState ! 3 ! 2 = BLANK \<and>
   board lastCellState ! 3 ! 2 = BLANK \<and>
   board (handleNumberInput 4 (handleNumberInput 4 lastCellState)) ! 3 ! 2 = 4 \<and> 4 \<noteq> BLANK"
  unfolding lastCellState_def demoRun_eq by code_simp

section \<open>The solver: failure restores the board, and the fuel suffices\<close>

lemma find_Some_mem: "find P xs = Some x \<Longrightarrow> x \<in> set xs \<and> P x"
  by (induction xs) (auto split: if_splits)

lemma findBlank_Some:
  assumes "findBlank b = Some (r, c)"
  shows "r < 9 \<and> c < 9 \<and> b ! r ! c = BLANK"
proof -
  from assms have "(r, c) \<in> set (List.product [0..<9] [0..<9]) \<and> b ! r ! c = BLANK"
    unfolding findBlank_def GRID_SIZE_def using find_Some_mem by fastforce
  then show ?thesis by simp
qed

lemma findBlank_None:
  assumes "findBlank b = None" "r < 9" "c < 9"
  shows "b ! r ! c \<noteq> BLANK"
proof -
  have "(r, c) \<in> set (List.product [0..<9] [0..<9])" using assms(2,3) by simp
  then show ?thesis using assms(1) unfolding findBlank_def GRID_SIZE_def find_None_iff by blast
qed

lemma setCell_undo: "b ! r ! c = v \<Longrightarrow> setCell (setCell b r c n) r c v = b"
proof (cases "r < length b")
  case True
  assume "b ! r ! c = v"
  then have "(b ! r)[c := v] = b ! r" by (metis list_update_id)
  then show ?thesis using True by (simp add: setCell_def)
next
  case False
  then show ?thesis by (simp add: setCell_def list_update_beyond)
qed

lemma tryNums_restores:
  assumes IH: "\<forall>k b ok b' k'. solveSudoku fuel sh k b = Some (ok, b', k') \<and> \<not> ok \<longrightarrow> b' = b"
  shows "tryNums fuel sh nums row col k b = Some (ok, b', k') \<Longrightarrow> \<not> ok \<Longrightarrow>
         b ! row ! col = BLANK \<Longrightarrow> b' = b"
proof (induction nums arbitrary: k)
  case Nil
  then show ?case by simp
next
  case (Cons num nums)
  show ?case
  proof (cases "isSafe b row col num")
    case False
    then show ?thesis using Cons by simp
  next
    case True
    then obtain ok1 b1 k1 where r1: "solveSudoku fuel sh k (setCell b row col num) = Some (ok1, b1, k1)"
      using Cons.prems(1) by (cases "solveSudoku fuel sh k (setCell b row col num)") auto
    show ?thesis
    proof (cases ok1)
      case True
      then show ?thesis using Cons.prems \<open>isSafe b row col num\<close> r1 by simp
    next
      case False
      then have "b1 = setCell b row col num" using IH r1 by blast
      then have "setCell b1 row col BLANK = b" using Cons.prems(3) by (simp add: setCell_undo)
      then have "tryNums fuel sh nums row col k1 b = Some (ok, b', k')"
        using Cons.prems(1) True r1 False by simp
      then show ?thesis using Cons.IH Cons.prems(2,3) by blast
    qed
  qed
qed

lemma solveSudoku_restores:
  "solveSudoku fuel sh k b = Some (ok, b', k') \<Longrightarrow> \<not> ok \<Longrightarrow> b' = b"
proof (induction fuel arbitrary: k b ok b' k')
  case 0
  then show ?case by simp
next
  case (Suc fuel)
  show ?case
  proof (cases "findBlank b")
    case None
    then show ?thesis using Suc.prems by simp
  next
    case (Some rc)
    obtain row col where rc: "rc = (row, col)" by (cases rc)
    have "tryNums fuel sh (sh k) row col (Suc k) b = Some (ok, b', k')"
      using Suc.prems(1) Some rc by simp
    moreover have "b ! row ! col = BLANK" using findBlank_Some Some rc by blast
    moreover have "\<forall>k b ok b' k'. solveSudoku fuel sh k b = Some (ok, b', k') \<and> \<not> ok \<longrightarrow> b' = b"
      using Suc.IH by blast
    ultimately show ?thesis using tryNums_restores Suc.prems(2) by blast
  qed
qed


lemma consistent_iff:
  "consistent b \<longleftrightarrow>
     (\<forall>r<9. \<forall>c<9. \<forall>r'<9. \<forall>c'<9.
        b ! r ! c \<noteq> BLANK \<and> (r', c') \<noteq> (r, c) \<and> sameUnit r c r' c' \<longrightarrow> b ! r' ! c' \<noteq> b ! r ! c)"
  unfolding consistent_def list_all_iff by (simp add: Ball_def)

lemma digitsOnly_iff: "digitsOnly b \<longleftrightarrow> (\<forall>r<9. \<forall>c<9. b ! r ! c \<le> 9)"
  unfolding digitsOnly_def list_all_iff by (simp add: Ball_def)

lemma noBlank_iff: "noBlank b \<longleftrightarrow> (\<forall>r<9. \<forall>c<9. b ! r ! c \<noteq> BLANK)"
  unfolding noBlank_def list_all_iff by (simp add: Ball_def)

lemma extends_iff: "extends s b \<longleftrightarrow> (\<forall>r<9. \<forall>c<9. b ! r ! c \<noteq> BLANK \<longrightarrow> s ! r ! c = b ! r ! c)"
  unfolding extends_def list_all_iff by (simp add: Ball_def)

lemma sameUnit_sym: "sameUnit r c r' c' \<Longrightarrow> sameUnit r' c' r c"
  by (auto simp: sameUnit_def)

lemma sameUnit_refl: "sameUnit r c r c"
  by (simp add: sameUnit_def)

lemma finite_blankCells: "finite (blankCells b)"
proof -
  have "blankCells b \<subseteq> {0..<9} \<times> {0..<9}" by (auto simp: blankCells_def)
  then show ?thesis using finite_subset by blast
qed

lemma card_blankCells_le: "card (blankCells b) \<le> 81"
proof -
  have "blankCells b \<subseteq> {0..<9} \<times> {0..<9}" by (auto simp: blankCells_def)
  then have "card (blankCells b) \<le> card ({0..<9::nat} \<times> {0..<9::nat})"
    by (intro card_mono) auto
  then show ?thesis by simp
qed

lemma blankCells_setCell:
  assumes "wf_board b" "r < 9" "c < 9" "n \<noteq> BLANK"
  shows "blankCells (setCell b r c n) = blankCells b - {(r, c)}"
  using assms by (auto simp: blankCells_def nth_setCell_wf)

lemma card_blankCells_setCell:
  assumes "wf_board b" "r < 9" "c < 9" "n \<noteq> BLANK" "b ! r ! c = BLANK"
  shows "card (blankCells (setCell b r c n)) < card (blankCells b)"
proof -
  have "(r, c) \<in> blankCells b" using assms by (simp add: blankCells_def)
  then show ?thesis
    using blankCells_setCell[OF assms(1-4)] finite_blankCells[of b] card_Diff1_less
    by metis
qed

lemma isSafe_differs: "isSafe b row col n \<Longrightarrow> col < 9 \<Longrightarrow> b ! row ! col \<noteq> n"
  by (simp add: isSafe_unfold)

lemma tryNums_returns:
  assumes IH: "\<forall>k b. wf_board b \<and> card (blankCells b) < fuel \<longrightarrow>
                 (\<exists>res. solveSudoku fuel sh k b = Some res)"
    and wf: "wf_board b" and rc: "row < 9" "col < 9" and bl: "b ! row ! col = BLANK"
    and cd: "card (blankCells b) \<le> fuel"
  shows "\<exists>res. tryNums fuel sh nums row col k b = Some res"
proof (induction nums arbitrary: k)
  case Nil
  show ?case by auto
next
  case (Cons num nums)
  show ?case
  proof (cases "isSafe b row col num")
    case False
    then show ?thesis using Cons.IH by simp
  next
    case True
    then have "num \<noteq> BLANK" using isSafe_differs rc(2) bl by blast
    then have "card (blankCells (setCell b row col num)) < fuel"
      using card_blankCells_setCell[OF wf rc _ bl] cd by fastforce
    then obtain ok1 b1 k1 where
      r1: "solveSudoku fuel sh k (setCell b row col num) = Some (ok1, b1, k1)"
      using IH wf wf_board_setCell by (metis prod_cases3)
    show ?thesis
    proof (cases ok1)
      case True
      then show ?thesis using \<open>isSafe b row col num\<close> r1 by auto
    next
      case False
      then have "b1 = setCell b row col num" using solveSudoku_restores r1 by blast
      then have "setCell b1 row col BLANK = b" using bl by (simp add: setCell_undo)
      then show ?thesis using True r1 False Cons.IH by simp
    qed
  qed
qed

lemma solveSudoku_returns:
  "wf_board b \<Longrightarrow> card (blankCells b) < fuel \<Longrightarrow> \<exists>res. solveSudoku fuel sh k b = Some res"
proof (induction fuel arbitrary: k b)
  case 0
  then show ?case by simp
next
  case (Suc fuel)
  show ?case
  proof (cases "findBlank b")
    case None
    then show ?thesis by auto
  next
    case (Some rc)
    obtain row col where rc: "rc = (row, col)" by (cases rc)
    have f: "row < 9" "col < 9" "b ! row ! col = BLANK" using findBlank_Some Some rc by blast+
    have "card (blankCells b) \<le> fuel" using Suc.prems(2) by simp
    moreover have "\<forall>k b. wf_board b \<and> card (blankCells b) < fuel \<longrightarrow>
                 (\<exists>res. solveSudoku fuel sh k b = Some res)" using Suc.IH by blast
    ultimately have "\<exists>res. tryNums fuel sh (sh k) row col (Suc k) b = Some res"
      using tryNums_returns Suc.prems(1) f by blast
    then show ?thesis using Some rc by simp
  qed
qed

text \<open>
  The fuel is only a bound: a run that returns with some fuel returns the same result
  with any larger amount.
\<close>

lemma tryNums_more_fuel:
  assumes IH: "\<forall>k b res. solveSudoku fuel sh k b = Some res \<longrightarrow>
                 solveSudoku (Suc fuel) sh k b = Some res"
  shows "tryNums fuel sh nums row col k b = Some res \<Longrightarrow>
         tryNums (Suc fuel) sh nums row col k b = Some res"
proof (induction nums arbitrary: k b)
  case Nil
  then show ?case by simp
next
  case (Cons num nums)
  show ?case
  proof (cases "isSafe b row col num")
    case False
    then show ?thesis using Cons by simp
  next
    case True
    then obtain ok1 b1 k1 where
      r1: "solveSudoku fuel sh k (setCell b row col num) = Some (ok1, b1, k1)"
      using Cons.prems by (cases "solveSudoku fuel sh k (setCell b row col num)") auto
    then have r2: "solveSudoku (Suc fuel) sh k (setCell b row col num) = Some (ok1, b1, k1)"
      using IH by blast
    show ?thesis
    proof (cases ok1)
      case True
      then show ?thesis using Cons.prems \<open>isSafe b row col num\<close> r1 r2
        by (auto simp del: solveSudoku.simps)
    next
      case False
      then have "tryNums fuel sh nums row col k1 (setCell b1 row col BLANK) = Some res"
        using Cons.prems True r1 by simp
      then have "tryNums (Suc fuel) sh nums row col k1 (setCell b1 row col BLANK) = Some res"
        by (rule Cons.IH)
      then show ?thesis using True r2 False by (simp del: solveSudoku.simps)
    qed
  qed
qed

lemma solveSudoku_more_fuel:
  "solveSudoku fuel sh k b = Some res \<Longrightarrow> solveSudoku (Suc fuel) sh k b = Some res"
proof (induction fuel arbitrary: k b res)
  case 0
  then show ?case by simp
next
  case (Suc fuel)
  show ?case
  proof (cases "findBlank b")
    case None
    then show ?thesis using Suc.prems by simp
  next
    case (Some rc)
    obtain row col where rc: "rc = (row, col)" by (cases rc)
    have "tryNums fuel sh (sh k) row col (Suc k) b = Some res"
      using Suc.prems Some rc by simp
    moreover have "\<forall>k b res. solveSudoku fuel sh k b = Some res \<longrightarrow>
                 solveSudoku (Suc fuel) sh k b = Some res" using Suc.IH by blast
    ultimately have "tryNums (Suc fuel) sh (sh k) row col (Suc k) b = Some res"
      using tryNums_more_fuel by blast
    then show ?thesis using Some rc by simp
  qed
qed

lemma solveSudoku_fuel_irrelevant:
  "solveSudoku fuel sh k b = Some res \<Longrightarrow> solveSudoku (fuel + n) sh k b = Some res"
  by (induction n) (simp_all del: solveSudoku.simps add: solveSudoku_more_fuel)

section \<open>The solver: a successful run ends in a solved board\<close>

lemma safe_step:
  assumes wf: "wf_board b" and co: "consistent b" and dg: "digitsOnly b"
    and rc: "row < 9" "col < 9" and bl: "b ! row ! col = BLANK"
    and sf: "isSafe b row col n" and n9: "n \<le> 9"
  shows "consistent (setCell b row col n) \<and> digitsOnly (setCell b row col n)"
proof
  have nth: "\<And>r c. setCell b row col n ! r ! c = (if r = row \<and> c = col then n else b ! r ! c)"
    using nth_setCell_wf[OF wf rc] by simp
  have free: "\<And>r c. r < 9 \<Longrightarrow> c < 9 \<Longrightarrow> sameUnit row col r c \<Longrightarrow> b ! r ! c \<noteq> n"
    using sf isSafe_sameUnit[OF rc] by blast
  show "digitsOnly (setCell b row col n)"
    using dg n9 by (simp add: digitsOnly_iff nth)
  show "consistent (setCell b row col n)"
    unfolding consistent_iff
  proof (intro allI impI)
    fix r c r' c'
    assume b: "r < 9" "c < 9" "r' < 9" "c' < 9"
      and h: "setCell b row col n ! r ! c \<noteq> BLANK \<and> (r', c') \<noteq> (r, c) \<and> sameUnit r c r' c'"
    show "setCell b row col n ! r' ! c' \<noteq> setCell b row col n ! r ! c"
    proof (cases "r = row \<and> c = col")
      case True
      then have "\<not> (r' = row \<and> c' = col)" using h by auto
      moreover have "b ! r' ! c' \<noteq> n" using free b h True by blast
      ultimately show ?thesis using True by (simp add: nth)
    next
      case False
      then have v: "setCell b row col n ! r ! c = b ! r ! c" by (auto simp: nth)
      show ?thesis
      proof (cases "r' = row \<and> c' = col")
        case True
        have "sameUnit row col r c" using h True sameUnit_sym by blast
        then have "b ! r ! c \<noteq> n" using free b by blast
        then show ?thesis using True v by (simp add: nth)
      next
        case False
        then have "setCell b row col n ! r' ! c' = b ! r' ! c'" by (auto simp: nth)
        moreover have "b ! r' ! c' \<noteq> b ! r ! c"
          using co b h v unfolding consistent_iff by metis
        ultimately show ?thesis using v by simp
      qed
    qed
  qed
qed

lemma tryNums_sound:
  assumes IH: "\<forall>k b b' k'. solveSudoku fuel sh k b = Some (True, b', k') \<and> wf_board b \<and>
                  consistent b \<and> digitsOnly b \<longrightarrow> solved b'"
    and wf: "wf_board b" and co: "consistent b" and dg: "digitsOnly b"
    and rc: "row < 9" "col < 9" and bl: "b ! row ! col = BLANK"
  shows "tryNums fuel sh nums row col k b = Some (True, b', k') \<Longrightarrow> \<forall>n\<in>set nums. n \<le> 9 \<Longrightarrow>
         solved b'"
proof (induction nums arbitrary: k)
  case Nil
  then show ?case by simp
next
  case (Cons num nums)
  show ?case
  proof (cases "isSafe b row col num")
    case False
    then show ?thesis using Cons by simp
  next
    case True
    then obtain ok1 b1 k1 where
      r1: "solveSudoku fuel sh k (setCell b row col num) = Some (ok1, b1, k1)"
      using Cons.prems(1) by (cases "solveSudoku fuel sh k (setCell b row col num)") auto
    show ?thesis
    proof (cases ok1)
      case True
      then have "b1 = b'" using Cons.prems(1) \<open>isSafe b row col num\<close> r1 by simp
      then have r2: "solveSudoku fuel sh k (setCell b row col num) = Some (True, b', k1)"
        using r1 True by simp
      have "consistent (setCell b row col num) \<and> digitsOnly (setCell b row col num)"
        using safe_step[OF wf co dg rc bl \<open>isSafe b row col num\<close>] Cons.prems(2) by simp
      then show ?thesis using IH r2 wf wf_board_setCell by blast
    next
      case False
      then have "b1 = setCell b row col num" using solveSudoku_restores r1 by blast
      then have "setCell b1 row col BLANK = b" using bl by (simp add: setCell_undo)
      then have "tryNums fuel sh nums row col k1 b = Some (True, b', k')"
        using Cons.prems(1) True r1 False by simp
      then show ?thesis using Cons.IH Cons.prems(2) by simp
    qed
  qed
qed

lemma solveSudoku_sound:
  assumes sh: "\<forall>k. \<forall>n\<in>set (sh k). n \<le> 9"
  shows "solveSudoku fuel sh k b = Some (True, b', k') \<Longrightarrow> wf_board b \<Longrightarrow> consistent b \<Longrightarrow>
         digitsOnly b \<Longrightarrow> solved b'"
proof (induction fuel arbitrary: k b b' k')
  case 0
  then show ?case by simp
next
  case (Suc fuel)
  show ?case
  proof (cases "findBlank b")
    case None
    then have "b' = b" using Suc.prems(1) by simp
    moreover have "noBlank b" using findBlank_None[OF None] by (simp add: noBlank_iff)
    ultimately show ?thesis using Suc.prems by (simp add: solved_def)
  next
    case (Some rc)
    obtain row col where rc: "rc = (row, col)" by (cases rc)
    have f: "row < 9" "col < 9" "b ! row ! col = BLANK" using findBlank_Some Some rc by blast+
    have t: "tryNums fuel sh (sh k) row col (Suc k) b = Some (True, b', k')"
      using Suc.prems(1) Some rc by simp
    have "\<forall>k b b' k'. solveSudoku fuel sh k b = Some (True, b', k') \<and> wf_board b \<and>
                  consistent b \<and> digitsOnly b \<longrightarrow> solved b'"
      using Suc.IH by blast
    from tryNums_sound[OF this Suc.prems(2,3,4) f t] sh show ?thesis by blast
  qed
qed

section \<open>The solver: a board that can be completed is completed\<close>

lemma completion_safe:
  assumes s: "solved s" and ex: "extends s b" and wf: "wf_board b"
    and rc: "row < 9" "col < 9" and bl: "b ! row ! col = BLANK"
  shows "isSafe b row col (s ! row ! col) \<and> extends s (setCell b row col (s ! row ! col))"
proof
  have nz: "s ! row ! col \<noteq> BLANK" using s rc by (simp add: solved_def noBlank_iff)
  have cs: "consistent s" using s by (simp add: solved_def)
  show "isSafe b row col (s ! row ! col)"
    unfolding isSafe_sameUnit[OF rc]
  proof (intro allI impI)
    fix r c assume b: "r < 9" "c < 9" and u: "sameUnit row col r c"
    show "b ! r ! c \<noteq> s ! row ! col"
    proof (cases "b ! r ! c = BLANK")
      case True
      then show ?thesis using nz by simp
    next
      case False
      then have e: "s ! r ! c = b ! r ! c" using ex b by (simp add: extends_iff)
      have "(r, c) \<noteq> (row, col)" using False bl by auto
      then have "s ! r ! c \<noteq> s ! row ! col"
        using cs rc b u nz unfolding consistent_iff by metis
      then show ?thesis using e by simp
    qed
  qed
  show "extends s (setCell b row col (s ! row ! col))"
    using ex by (simp add: extends_iff nth_setCell_wf[OF wf rc])
qed

lemma tryNums_complete:
  assumes IH: "\<forall>k b. wf_board b \<and> extends s b \<and> card (blankCells b) < fuel \<longrightarrow>
                 (\<exists>b' k'. solveSudoku fuel sh k b = Some (True, b', k'))"
    and s: "solved s" and wf: "wf_board b" and ex: "extends s b"
    and rc: "row < 9" "col < 9" and bl: "b ! row ! col = BLANK"
    and cd: "card (blankCells b) \<le> fuel"
  shows "s ! row ! col \<in> set nums \<Longrightarrow> \<exists>b' k'. tryNums fuel sh nums row col k b = Some (True, b', k')"
proof (induction nums arbitrary: k)
  case Nil
  then show ?case by simp
next
  case (Cons num nums)
  have safe: "isSafe b row col (s ! row ! col)" "extends s (setCell b row col (s ! row ! col))"
    using completion_safe[OF s ex wf rc bl] by blast+
  show ?case
  proof (cases "isSafe b row col num")
    case False
    then have "num \<noteq> s ! row ! col" using safe(1) by auto
    then have "s ! row ! col \<in> set nums" using Cons.prems by auto
    then show ?thesis using Cons.IH False by simp
  next
    case True
    then have "num \<noteq> BLANK" using isSafe_differs rc(2) bl by blast
    then have less: "card (blankCells (setCell b row col num)) < fuel"
      using card_blankCells_setCell[OF wf rc _ bl] cd by fastforce
    have wf': "wf_board (setCell b row col num)" using wf by (rule wf_board_setCell)
    obtain ok1 b1 k1 where
      r1: "solveSudoku fuel sh k (setCell b row col num) = Some (ok1, b1, k1)"
      using solveSudoku_returns[OF wf' less] by (metis prod_cases3)
    show ?thesis
    proof (cases ok1)
      case True
      then show ?thesis using \<open>isSafe b row col num\<close> r1 by auto
    next
      case False
      have "num \<noteq> s ! row ! col"
      proof
        assume "num = s ! row ! col"
        then have "\<exists>b' k'. solveSudoku fuel sh k (setCell b row col num) = Some (True, b', k')"
          using IH wf' safe(2) less by blast
        then show False using r1 False by auto
      qed
      then have mem: "s ! row ! col \<in> set nums" using Cons.prems by auto
      have "b1 = setCell b row col num" using solveSudoku_restores r1 False by blast
      then have "setCell b1 row col BLANK = b" using bl by (simp add: setCell_undo)
      then show ?thesis using True r1 False Cons.IH[OF mem] by simp
    qed
  qed
qed

lemma solveSudoku_complete:
  assumes sh: "\<forall>k. set (sh k) = {1..9}" and s: "solved s"
  shows "wf_board b \<Longrightarrow> extends s b \<Longrightarrow> card (blankCells b) < fuel \<Longrightarrow>
         \<exists>b' k'. solveSudoku fuel sh k b = Some (True, b', k')"
proof (induction fuel arbitrary: k b)
  case 0
  then show ?case by simp
next
  case (Suc fuel)
  show ?case
  proof (cases "findBlank b")
    case None
    then show ?thesis by auto
  next
    case (Some rc)
    obtain row col where rc: "rc = (row, col)" by (cases rc)
    have f: "row < 9" "col < 9" "b ! row ! col = BLANK" using findBlank_Some Some rc by blast+
    have "s ! row ! col \<noteq> BLANK" "s ! row ! col \<le> 9"
      using s f by (simp_all add: solved_def noBlank_iff digitsOnly_iff)
    then have mem: "s ! row ! col \<in> set (sh k)" using sh by (simp add: BLANK_def Suc_le_eq)
    have c: "card (blankCells b) \<le> fuel" using Suc.prems(3) by simp
    have "\<forall>k b. wf_board b \<and> extends s b \<and> card (blankCells b) < fuel \<longrightarrow>
                 (\<exists>b' k'. solveSudoku fuel sh k b = Some (True, b', k'))"
      using Suc.IH by blast
    from tryNums_complete[OF this s Suc.prems(1,2) f c mem]
    show ?thesis using Some rc by simp
  qed
qed

section \<open>The seeded board can be completed\<close>

lemma perm_facts:
  assumes "mset p = mset [1..<10]"
  shows "length p = 9" "distinct p" "set p = {1..9}"
proof -
  show "length p = 9" using assms mset_eq_length by fastforce
  show "distinct p" using assms mset_eq_imp_distinct_iff distinct_upt by blast
  have "set p = set [1..<10]" using assms mset_eq_setD by blast
  then show "set p = {1..9}" by auto
qed

lemma solved_demoSolution: "solved demoSolution"
  by code_simp

lemma demoSolution_row0: "c < 9 \<Longrightarrow> demoSolution ! 0 ! c = Suc c"
proof -
  have "list_all (\<lambda>c. demoSolution ! 0 ! c = Suc c) [0..<9]" by code_simp
  then show "c < 9 \<Longrightarrow> demoSolution ! 0 ! c = Suc c" by (simp add: list_all_iff)
qed

lemma nth_relabel:
  "wf_board b \<Longrightarrow> r < 9 \<Longrightarrow> c < 9 \<Longrightarrow> relabel p b ! r ! c = p ! (b ! r ! c - 1)"
  by (simp add: relabel_def wf_board_length wf_board_row)

lemma wf_board_relabel: "wf_board b \<Longrightarrow> wf_board (relabel p b)"
  by (simp add: wf_board_def relabel_def list_all_iff)

lemma relabel_solved:
  assumes sb: "solved b" and p: "mset p = mset [1..<10]"
  shows "solved (relabel p b)"
proof -
  have wf: "wf_board b" and co: "consistent b" using sb by (simp_all add: solved_def)
  have rng: "\<And>r c. r < 9 \<Longrightarrow> c < 9 \<Longrightarrow> b ! r ! c - 1 < 9 \<and> 1 \<le> b ! r ! c"
    using sb by (fastforce simp: solved_def noBlank_iff digitsOnly_iff BLANK_def)
  have val: "\<And>r c. r < 9 \<Longrightarrow> c < 9 \<Longrightarrow> relabel p b ! r ! c \<in> {1..9}"
  proof -
    fix r c :: nat assume rc: "r < 9" "c < 9"
    have "p ! (b ! r ! c - 1) \<in> set p" using rng[OF rc] perm_facts(1)[OF p] by simp
    then show "relabel p b ! r ! c \<in> {1..9}"
      using perm_facts(3)[OF p] nth_relabel[OF wf rc] by simp
  qed
  have "noBlank (relabel p b)" unfolding noBlank_iff using val by (fastforce simp: BLANK_def)
  moreover have "digitsOnly (relabel p b)" unfolding digitsOnly_iff using val by fastforce
  moreover have "consistent (relabel p b)"
    unfolding consistent_iff
  proof (intro allI impI)
    fix r c r' c'
    assume b: "r < 9" "c < 9" "r' < 9" "c' < 9"
      and h: "relabel p b ! r ! c \<noteq> BLANK \<and> (r', c') \<noteq> (r, c) \<and> sameUnit r c r' c'"
    have "b ! r ! c \<noteq> BLANK" using rng[OF b(1,2)] by (simp add: BLANK_def)
    then have "b ! r' ! c' \<noteq> b ! r ! c" using co b h unfolding consistent_iff by metis
    then have "b ! r' ! c' - 1 \<noteq> b ! r ! c - 1" using rng[OF b(1,2)] rng[OF b(3,4)] by linarith
    then have "p ! (b ! r' ! c' - 1) \<noteq> p ! (b ! r ! c - 1)"
      using perm_facts(1,2)[OF p] rng[OF b(1,2)] rng[OF b(3,4)] by (simp add: nth_eq_iff_index_eq)
    then show "relabel p b ! r' ! c' \<noteq> relabel p b ! r ! c"
      using nth_relabel[OF wf] b by simp
  qed
  ultimately show ?thesis using wf wf_board_relabel by (simp add: solved_def)
qed

lemma wf_board_getEmptyBoard: "wf_board getEmptyBoard"
  by (simp add: wf_board_def getEmptyBoard_def GRID_SIZE_def list_all_iff)

lemma nth_seededBoard:
  "r < 9 \<Longrightarrow> c < 9 \<Longrightarrow> seededBoard sh ! r ! c = (if r = 0 then sh 0 ! c else BLANK)"
  by (simp add: seededBoard_def getEmptyBoard_def GRID_SIZE_def)

lemma seededBoard_completion:
  assumes p: "mset (sh 0) = mset [1..<10]"
  shows "wf_board (seededBoard sh) \<and> solved (relabel (sh 0) demoSolution) \<and>
         extends (relabel (sh 0) demoSolution) (seededBoard sh)"
proof (intro conjI)
  show "wf_board (seededBoard sh)"
    using perm_facts(1)[OF p]
    by (simp add: wf_board_def seededBoard_def getEmptyBoard_def GRID_SIZE_def list_all_length
        nth_list_update)
  show "solved (relabel (sh 0) demoSolution)"
    using relabel_solved[OF solved_demoSolution p] .
  have wfd: "wf_board demoSolution" using solved_demoSolution by (simp add: solved_def)
  show "extends (relabel (sh 0) demoSolution) (seededBoard sh)"
    unfolding extends_iff
    by (simp add: nth_seededBoard nth_relabel[OF wfd] demoSolution_row0)
qed

section \<open>A solved board has every digit once in every row, column and box\<close>

lemma eachOnce_iff: "eachOnce xs \<longleftrightarrow> length xs = 9 \<and> (\<forall>d\<in>{1..9}. count_list xs d = 1)"
proof -
  have "set [1..<10] = {1..9::nat}" by auto
  then show ?thesis unfolding eachOnce_def list_all_iff by simp
qed

lemma distinct_digits_eachOnce:
  assumes len: "length xs = 9" and di: "distinct xs" and sub: "set xs \<subseteq> {1..9}"
  shows "eachOnce xs"
proof -
  have "card (set xs) = 9" using len di distinct_card by fastforce
  moreover have "card {1..9::nat} = 9" by simp
  ultimately have eq: "set xs = {1..9}" using sub card_subset_eq[of "{1..9::nat}" "set xs"] by simp
  have "\<forall>d\<in>{1..9}. count_list xs d = 1"
  proof
    fix d :: nat assume "d \<in> {1..9}"
    then have "d \<in> set xs" using eq by simp
    then have "count (mset xs) d = 1" using di distinct_count_atmost_1 by metis
    then show "count_list xs d = 1" by (simp add: count_mset)
  qed
  then show ?thesis using len by (simp add: eachOnce_iff)
qed

lemma unit_eachOnce:
  assumes s: "solved b"
    and rng: "\<And>k. k < 9 \<Longrightarrow> R k < 9 \<and> C k < 9"
    and unit: "\<And>k k'. k < 9 \<Longrightarrow> k' < 9 \<Longrightarrow> sameUnit (R k) (C k) (R k') (C k')"
    and inj: "\<And>k k'. k < 9 \<Longrightarrow> k' < 9 \<Longrightarrow> k \<noteq> k' \<Longrightarrow> (R k', C k') \<noteq> (R k, C k)"
  shows "eachOnce (map (\<lambda>k. b ! R k ! C k) [0..<9])"
proof (rule distinct_digits_eachOnce)
  show "length (map (\<lambda>k. b ! R k ! C k) [0..<9]) = 9" by simp
  have co: "consistent b" and nb: "noBlank b" and dg: "digitsOnly b"
    using s by (simp_all add: solved_def)
  show "distinct (map (\<lambda>k. b ! R k ! C k) [0..<9])"
    unfolding distinct_map
  proof
    show "distinct [0..<9]" by simp
    show "inj_on (\<lambda>k. b ! R k ! C k) (set [0..<9])"
    proof (rule inj_onI)
      fix k k' assume kk: "k \<in> set [0..<9]" "k' \<in> set [0..<9]"
        and e: "b ! R k ! C k = b ! R k' ! C k'"
      show "k = k'"
      proof (rule ccontr)
        assume ne: "k \<noteq> k'"
        have k9: "k < 9" "k' < 9" using kk by simp_all
        have "b ! R k ! C k \<noteq> BLANK" using nb rng[OF k9(1)] by (simp add: noBlank_iff)
        then have "b ! R k' ! C k' \<noteq> b ! R k ! C k"
          using co rng[OF k9(1)] rng[OF k9(2)] unit[OF k9] inj[OF k9 ne]
          unfolding consistent_iff by metis
        then show False using e by simp
      qed
    qed
  qed
  show "set (map (\<lambda>k. b ! R k ! C k) [0..<9]) \<subseteq> {1..9}"
  proof
    fix v assume "v \<in> set (map (\<lambda>k. b ! R k ! C k) [0..<9])"
    then obtain k where k: "k < 9" "v = b ! R k ! C k" by auto
    then have "v \<noteq> BLANK" "v \<le> 9"
      using nb dg rng[OF k(1)] by (simp_all add: noBlank_iff digitsOnly_iff)
    then show "v \<in> {1..9}" by (simp add: BLANK_def Suc_le_eq)
  qed
qed

lemma box_cell_facts:
  fixes i k :: nat
  assumes "i < 9" "k < 9"
  shows "3 * (i div 3) + k div 3 < 9" "3 * (i mod 3) + k mod 3 < 9"
    "(3 * (i div 3) + k div 3) div 3 = i div 3" "(3 * (i mod 3) + k mod 3) div 3 = i mod 3"
proof -
  have a: "i div 3 < 3" "k div 3 < 3" using assms by (simp_all add: less_mult_imp_div_less)
  have b: "i mod 3 < 3" "k mod 3 < 3" by simp_all
  show "3 * (i div 3) + k div 3 < 9" using a by linarith
  show "3 * (i mod 3) + k mod 3 < 9" using b by linarith
  show "(3 * (i div 3) + k div 3) div 3 = i div 3" using a by simp
  show "(3 * (i mod 3) + k mod 3) div 3 = i mod 3" using b by simp
qed

lemma solved_sudokuSolution:
  assumes s: "solved b"
  shows "sudokuSolution b"
proof -
  have wf: "wf_board b" using s by (simp add: solved_def)
  have "eachOnce (rowAt b i) \<and> eachOnce (colAt b i) \<and> eachOnce (boxAt b i)" if i: "i < 9" for i
  proof (intro conjI)
    have "map (\<lambda>k. b ! i ! k) [0..<9] = b ! i"
      using wf_board_row[OF wf i] map_nth[of "b ! i"] by simp
    moreover have "eachOnce (map (\<lambda>k. b ! i ! k) [0..<9])"
      using i by (intro unit_eachOnce[OF s]) (simp_all add: sameUnit_def)
    ultimately show "eachOnce (rowAt b i)" by (simp add: rowAt_def)
    show "eachOnce (colAt b i)"
      unfolding colAt_def using i by (intro unit_eachOnce[OF s]) (simp_all add: sameUnit_def)
    show "eachOnce (boxAt b i)"
      unfolding boxAt_def
    proof (intro unit_eachOnce[OF s])
      fix k :: nat assume "k < 9"
      then show "3 * (i div 3) + k div 3 < 9 \<and> 3 * (i mod 3) + k mod 3 < 9"
        using box_cell_facts(1,2)[OF i] by simp
    next
      fix k k' :: nat assume "k < 9" "k' < 9"
      then show "sameUnit (3 * (i div 3) + k div 3) (3 * (i mod 3) + k mod 3)
                          (3 * (i div 3) + k' div 3) (3 * (i mod 3) + k' mod 3)"
        using box_cell_facts(3,4)[OF i] by (simp add: sameUnit_def)
    next
      fix k k' :: nat assume "k < 9" "k' < 9" "k \<noteq> k'"
      have "k' div 3 \<noteq> k div 3 \<or> k' mod 3 \<noteq> k mod 3"
        using \<open>k \<noteq> k'\<close> by (metis div_mult_mod_eq)
      then show "(3 * (i div 3) + k' div 3, 3 * (i mod 3) + k' mod 3) \<noteq>
                 (3 * (i div 3) + k div 3, 3 * (i mod 3) + k mod 3)" by auto
    qed
  qed
  then show ?thesis
    unfolding sudokuSolution_def list_all_iff using wf_board_length[OF wf] by simp
qed

section \<open>The generated solution\<close>

lemma extends_consistent:
  assumes s: "solved s" and ex: "extends s b"
  shows "consistent b \<and> digitsOnly b"
proof
  have cs: "consistent s" and ds: "digitsOnly s" using s by (simp_all add: solved_def)
  show "digitsOnly b"
    unfolding digitsOnly_iff
  proof (intro allI impI)
    fix r c :: nat assume rc: "r < 9" "c < 9"
    show "b ! r ! c \<le> 9"
    proof (cases "b ! r ! c = BLANK")
      case True then show ?thesis by (simp add: BLANK_def)
    next
      case False
      then have "s ! r ! c = b ! r ! c" using ex rc by (simp add: extends_iff)
      then show ?thesis using ds rc by (metis digitsOnly_iff)
    qed
  qed
  show "consistent b"
    unfolding consistent_iff
  proof (intro allI impI)
    fix r c r' c'
    assume b: "r < 9" "c < 9" "r' < 9" "c' < 9"
      and h: "b ! r ! c \<noteq> BLANK \<and> (r', c') \<noteq> (r, c) \<and> sameUnit r c r' c'"
    have e: "s ! r ! c = b ! r ! c" using ex b h by (simp add: extends_iff)
    show "b ! r' ! c' \<noteq> b ! r ! c"
    proof (cases "b ! r' ! c' = BLANK")
      case True then show ?thesis using h by simp
    next
      case False
      then have e': "s ! r' ! c' = b ! r' ! c'" using ex b by (simp add: extends_iff)
      have "s ! r ! c \<noteq> BLANK" using e h by simp
      then have "s ! r' ! c' \<noteq> s ! r ! c" using cs b h unfolding consistent_iff by metis
      then show ?thesis using e e' by simp
    qed
  qed
qed

lemma topLevelSolve_succeeds:
  assumes p: "\<forall>k. mset (sh k) = mset [1..<10]"
  shows "\<exists>b k. topLevelSolve sh = Some (True, b, k) \<and> solved b"
proof -
  let ?s = "relabel (sh 0) demoSolution"
  have c: "wf_board (seededBoard sh)" "solved ?s" "extends ?s (seededBoard sh)"
    using seededBoard_completion p by blast+
  have st: "\<forall>k. set (sh k) = {1..9}" using p perm_facts(3) by blast
  have "card (blankCells (seededBoard sh)) < GRID_SIZE * GRID_SIZE + 1"
    using card_blankCells_le[of "seededBoard sh"] by (simp add: GRID_SIZE_def)
  from solveSudoku_complete[OF st c(2) c(1) c(3) this]
  obtain b k where r: "topLevelSolve sh = Some (True, b, k)"
    unfolding topLevelSolve_def by blast
  have "\<forall>k. \<forall>n\<in>set (sh k). n \<le> 9" using st by simp
  from solveSudoku_sound[OF this r[unfolded topLevelSolve_def] c(1)] extends_consistent[OF c(2,3)]
  have "solved b" by blast
  then show ?thesis using r by blast
qed

lemma generateFullBoard_returns:
  assumes p: "\<forall>k. mset (sh k) = mset [1..<10]"
  shows "\<exists>b. generateFullBoard sh = Some b \<and> solved b"
  using topLevelSolve_succeeds[OF p] by (auto simp: generateFullBoard_def)

lemma generatePuzzle_parts:
  assumes "generatePuzzle rnd d = Some (sol, puz)"
  shows "generateFullBoard (shuffles rnd) = Some sol"
    and "removeCells (picks rnd) 0 (budget d) sol = Some puz"
  using assms by (auto simp: generatePuzzle_def split: option.splits)

text \<open>
  Claim C1. For every random source and every difficulty, the \<open>solution\<close> that
  \<open>generatePuzzle\<close> returns has 9 rows, and each of its rows, columns and 3x3 boxes
  holds each of the digits 1-9 exactly once. (\<open>generateFullBoard\<close> itself always
  returns: lemma \<open>generateFullBoard_returns\<close>.)
\<close>

theorem generated_solution_valid:
  assumes "fair rnd" and "generatePuzzle rnd d = Some (sol, puz)"
  shows "sudokuSolution sol \<and>
         (\<forall>i<9. \<forall>d\<in>{1..9}. count_list (rowAt sol i) d = 1 \<and> count_list (colAt sol i) d = 1 \<and>
                              count_list (boxAt sol i) d = 1)"
proof -
  have "\<forall>k. mset (shuffles rnd k) = mset [1..<10]" using assms(1) by (simp add: fair_def)
  from generateFullBoard_returns[OF this] have "solved sol"
    using generatePuzzle_parts(1)[OF assms(2)] by auto
  then have s: "sudokuSolution sol" by (rule solved_sudokuSolution)
  then have "\<forall>i<9. eachOnce (rowAt sol i) \<and> eachOnce (colAt sol i) \<and> eachOnce (boxAt sol i)"
    unfolding sudokuSolution_def list_all_iff by simp
  then show ?thesis using s by (simp add: eachOnce_iff)
qed

theorem generated_solution_valid_witness:
  "fair demoSource \<and> generatePuzzle demoSource Easy = Some (demoSolution, demoPuzzle) \<and>
   sudokuSolution demoSolution \<and> count_list (boxAt demoSolution 4) 7 = 1"
proof -
  have "(4::nat) < 9" "(7::nat) \<in> {1..9}" by simp_all
  with generated_solution_valid[OF fair_demoSource demo_generate]
  have "sudokuSolution demoSolution" "count_list (boxAt demoSolution 4) 7 = 1" by blast+
  then show ?thesis using fair_demoSource demo_generate by blast
qed




section \<open>The generated puzzle\<close>

lemma count_row_blanked:
  "c < length row \<Longrightarrow> row ! c \<noteq> BLANK \<Longrightarrow>
   Suc (length (filter (\<lambda>v. v \<noteq> BLANK) (row[c := BLANK]))) = length (filter (\<lambda>v. v \<noteq> BLANK) row)"
proof (induction row arbitrary: c)
  case Nil
  then show ?case by simp
next
  case (Cons x xs)
  then show ?case by (cases c) auto
qed

lemma countNonBlank_sum:
  "countNonBlank b = sum_list (map (\<lambda>row. length (filter (\<lambda>v. v \<noteq> BLANK) row)) b)"
  unfolding countNonBlank_def by (induction b) simp_all

lemma countNonBlank_setCell:
  assumes "r < length b" "c < length (b ! r)" "b ! r ! c \<noteq> BLANK"
  shows "Suc (countNonBlank (setCell b r c BLANK)) = countNonBlank b"
proof -
  let ?f = "\<lambda>row. length (filter (\<lambda>v. v \<noteq> BLANK) row)"
  have b: "b = take r b @ b ! r # drop (Suc r) b" using assms(1) by (rule id_take_nth_drop)
  have u: "setCell b r c BLANK = take r b @ (b ! r)[c := BLANK] # drop (Suc r) b"
    unfolding setCell_def using assms(1) by (rule upd_conv_take_nth_drop)
  have "countNonBlank b = sum_list (map ?f (take r b)) + ?f (b ! r) + sum_list (map ?f (drop (Suc r) b))"
    unfolding countNonBlank_sum by (subst b) simp
  moreover have "countNonBlank (setCell b r c BLANK) =
      sum_list (map ?f (take r b)) + ?f ((b ! r)[c := BLANK]) + sum_list (map ?f (drop (Suc r) b))"
    unfolding countNonBlank_sum u by simp
  moreover have "Suc (?f ((b ! r)[c := BLANK])) = ?f (b ! r)"
    using count_row_blanked[OF assms(2,3)] .
  ultimately show ?thesis by linarith
qed

lemma countNonBlank_full:
  assumes wf: "wf_board b" and nb: "noBlank b"
  shows "countNonBlank b = 81"
proof -
  have "\<forall>v\<in>set (concat b). v \<noteq> BLANK"
  proof
    fix v assume "v \<in> set (concat b)"
    then obtain row where row: "row \<in> set b" "v \<in> set row" by auto
    then obtain r where r: "r < length b" "row = b ! r" by (metis in_set_conv_nth)
    then obtain c where c: "c < length row" "v = row ! c" using row(2) by (metis in_set_conv_nth)
    have "r < 9" using r wf_board_length[OF wf] by simp
    moreover have "c < 9" using c r wf_board_row[OF wf \<open>r < 9\<close>] by simp
    ultimately show "v \<noteq> BLANK" using nb r c by (simp add: noBlank_iff)
  qed
  then have "filter (\<lambda>v. v \<noteq> BLANK) (concat b) = concat b" by (simp add: filter_id_conv)
  moreover have "map length b = map (\<lambda>row. 9) b"
    using wf by (intro map_cong) (auto simp: wf_board_def list_all_iff)
  then have "map length b = replicate (length b) 9"
    by (simp only: map_replicate_const)
  ultimately show ?thesis
    using wf_board_length[OF wf] by (simp add: countNonBlank_def length_concat sum_list_replicate)
qed

lemma removeCells_inv:
  assumes "removeCells pk j attempts puzzle = Some y"
  shows "(\<forall>i. pk i < 9) \<longrightarrow> wf_board puzzle \<longrightarrow>
         wf_board y \<and> (\<forall>r<9. \<forall>c<9. y ! r ! c \<noteq> BLANK \<longrightarrow> y ! r ! c = puzzle ! r ! c) \<and>
         countNonBlank y + attempts = countNonBlank puzzle"
proof (rule removeCells.raw_induct[where P = "\<lambda>pk j attempts puzzle y.
         (\<forall>i. pk i < 9) \<longrightarrow> wf_board puzzle \<longrightarrow>
         wf_board y \<and> (\<forall>r<9. \<forall>c<9. y ! r ! c \<noteq> BLANK \<longrightarrow> y ! r ! c = puzzle ! r ! c) \<and>
         countNonBlank y + attempts = countNonBlank puzzle", OF _ assms], goal_cases)
  case (1 rc pk j attempts puzzle y)
  show ?case
  proof (intro impI)
    assume pk: "\<forall>i. pk i < 9" and wf: "wf_board puzzle"
    let ?r = "pk j" and ?c = "pk (Suc j)"
    have rc: "?r < 9" "?c < 9" using pk by simp_all
    show "wf_board y \<and> (\<forall>r<9. \<forall>c<9. y ! r ! c \<noteq> BLANK \<longrightarrow> y ! r ! c = puzzle ! r ! c) \<and>
          countNonBlank y + attempts = countNonBlank puzzle"
    proof (cases "attempts > 0")
      case False
      then show ?thesis using 1(2) wf by simp
    next
      case True
      show ?thesis
      proof (cases "puzzle ! ?r ! ?c \<noteq> BLANK")
        case False
        then have "rc pk (j + 2) attempts puzzle = Some y" using 1(2) True by simp
        from 1(1)[OF this] pk wf show ?thesis by blast
      next
        case nz: True
        let ?p = "setCell puzzle ?r ?c BLANK"
        have "rc pk (j + 2) (attempts - 1) ?p = Some y" using 1(2) True nz by simp
        from 1(1)[OF this] pk wf wf_board_setCell
        have ih: "wf_board y" "\<forall>r<9. \<forall>c<9. y ! r ! c \<noteq> BLANK \<longrightarrow> y ! r ! c = ?p ! r ! c"
          "countNonBlank y + (attempts - 1) = countNonBlank ?p" by blast+
        have "Suc (countNonBlank ?p) = countNonBlank puzzle"
          using countNonBlank_setCell[of ?r puzzle ?c] nz rc wf_board_length[OF wf]
            wf_board_row[OF wf rc(1)] by simp
        then have "countNonBlank y + attempts = countNonBlank puzzle" using ih(3) True by linarith
        moreover have "\<forall>r<9. \<forall>c<9. y ! r ! c \<noteq> BLANK \<longrightarrow> y ! r ! c = puzzle ! r ! c"
          using ih(2) nth_setCell_wf[OF wf rc] by (metis)
        ultimately show ?thesis using ih(1) by blast
      qed
    qed
  qed
qed

lemma generatePuzzle_facts:
  assumes f: "fair rnd" and g: "generatePuzzle rnd d = Some (sol, puz)"
  shows "solved sol" "wf_board puz"
    "\<forall>r<9. \<forall>c<9. puz ! r ! c \<noteq> BLANK \<longrightarrow> puz ! r ! c = sol ! r ! c"
    "countNonBlank puz + budget d = 81"
proof -
  have "\<forall>k. mset (shuffles rnd k) = mset [1..<10]" using f by (simp add: fair_def)
  from generateFullBoard_returns[OF this] show s: "solved sol"
    using generatePuzzle_parts(1)[OF g] by auto
  have pk: "\<forall>i. picks rnd i < 9" using f by (simp add: fair_def)
  have wf: "wf_board sol" using s by (simp add: solved_def)
  from removeCells_inv[OF generatePuzzle_parts(2)[OF g]] pk wf
  have i: "wf_board puz" "\<forall>r<9. \<forall>c<9. puz ! r ! c \<noteq> BLANK \<longrightarrow> puz ! r ! c = sol ! r ! c"
    "countNonBlank puz + budget d = countNonBlank sol" by blast+
  show "wf_board puz" by (rule i(1))
  show "\<forall>r<9. \<forall>c<9. puz ! r ! c \<noteq> BLANK \<longrightarrow> puz ! r ! c = sol ! r ! c" by (rule i(2))
  show "countNonBlank puz + budget d = 81"
    using i(3) countNonBlank_full[OF wf] s by (simp add: solved_def)
qed



section \<open>Sorting annotation digits\<close>

lemma js_toString_digit: "n < 10 \<Longrightarrow> js_toString n = [digit_char n]"
  by (simp add: js_toString.simps)

lemma of_char_digit_char: "n < 10 \<Longrightarrow> (of_char (digit_char n) :: nat) = 48 + n"
  by (simp add: digit_char_def of_char_of)

lemma js_str_less_digits:
  "a < 10 \<Longrightarrow> b < 10 \<Longrightarrow> js_str_less (js_toString a) (js_toString b) \<longleftrightarrow> a < b"
  by (simp add: js_toString_digit of_char_digit_char)

lemma js_insort_digits:
  "x < 10 \<Longrightarrow> \<forall>y\<in>set ys. y < 10 \<Longrightarrow> js_insort x ys = insort x ys"
  by (induction ys) (auto simp: js_str_less_digits)

lemma set_js_insort_digits:
  "x < 10 \<Longrightarrow> \<forall>y\<in>set ys. y < 10 \<Longrightarrow> \<forall>y\<in>set (js_insort x ys). y < 10"
  by (simp add: js_insort_digits set_insort_key)

lemma js_sort_digits: "\<forall>x\<in>set xs. x < 10 \<Longrightarrow> js_sort xs = sort xs"
proof (induction xs)
  case Nil
  then show ?case by (simp add: js_sort_def)
next
  case (Cons x xs)
  then have "js_sort xs = sort xs" by simp
  moreover have "\<forall>y\<in>set (sort xs). y < 10" using Cons.prems by simp
  ultimately show ?case using Cons.prems by (simp add: js_sort_def js_insort_digits)
qed

section \<open>The session invariant\<close>

lemma boardsMatch_iff: "boardsMatch a b \<longleftrightarrow> (\<forall>i<9. \<forall>j<9. a ! i ! j = b ! i ! j)"
  unfolding boardsMatch_def GRID_SIZE_def list_all_iff by (simp add: Ball_def)

lemma handleNumberInput_frame:
  "initialBoard (handleNumberInput n s) = initialBoard s"
  "solution (handleNumberInput n s) = solution s"
  "selectedCell (handleNumberInput n s) = selectedCell s"
  "isMemoMode (handleNumberInput n s) = isMemoMode s"
  by (simp_all add: handleNumberInput_def Let_def split: option.splits prod.splits)

lemma handleNumberInput_cases:
  obtains (idle) "handleNumberInput n s = s"
  | (memo) r c cur where "selectedCell s = Some (r, c)" "\<not> isComplete s"
      "initialBoard s ! r ! c = BLANK" "isMemoMode s"
      "cur = (case memos s (cellKey r c) of None \<Rightarrow> [] | Some l \<Rightarrow> l)"
      "board (handleNumberInput n s) = board s"
      "isComplete (handleNumberInput n s) = isComplete s"
      "mistakes (handleNumberInput n s) = mistakes s"
      "memos (handleNumberInput n s) =
         (memos s)(cellKey r c \<mapsto> (if n \<in> set cur then filter (\<lambda>x. x \<noteq> n) cur
                                        else js_sort (cur @ [n])))"
  | (place) r c v where "selectedCell s = Some (r, c)" "\<not> isComplete s"
      "initialBoard s ! r ! c = BLANK" "\<not> isMemoMode s"
      "board (handleNumberInput n s) = setCell (board s) r c v"
      "isComplete (handleNumberInput n s) = boardsMatch (setCell (board s) r c v) (solution s)"
      "memos (handleNumberInput n s) = memos s \<or>
       memos (handleNumberInput n s) = (memos s)(cellKey r c := None)"
proof (cases "selectedCell s")
  case None
  then have "handleNumberInput n s = s" by (simp add: handleNumberInput_def)
  then show ?thesis by (rule idle)
next
  case (Some rc)
  obtain r c where rc: "rc = (r, c)" by (cases rc)
  have sel: "selectedCell s = Some (r, c)" using Some rc by simp
  show ?thesis
  proof (cases "isComplete s \<or> initialBoard s ! r ! c \<noteq> BLANK")
    case True
    then have "handleNumberInput n s = s" using sel by (auto simp: handleNumberInput_def)
    then show ?thesis by (rule idle)
  next
    case False
    then have g: "\<not> isComplete s" "initialBoard s ! r ! c = BLANK" by simp_all
    show ?thesis
    proof (cases "isMemoMode s")
      case True
      show ?thesis
        by (rule memo[OF sel g True refl]) (simp_all add: handleNumberInput_def Let_def sel g True)
    next
      case False
      show ?thesis
      proof (cases "board s ! r ! c = n")
        case True
        show ?thesis
          by (rule place[OF sel g False, of BLANK])
            (simp_all add: handleNumberInput_def Let_def sel g False True checkCompletion_flag)
      next
        case ne: False
        show ?thesis
          by (rule place[OF sel g False, of n])
            (simp_all add: handleNumberInput_def Let_def sel g False ne checkCompletion_flag)
      qed
    qed
  qed
qed

lemma handleErase_cases:
  obtains (idle) "handleErase s = s"
  | (erase) r c where "selectedCell s = Some (r, c)" "\<not> isComplete s"
      "initialBoard s ! r ! c = BLANK"
      "handleErase s = s\<lparr> board := setCell (board s) r c BLANK \<rparr>"
proof (cases "selectedCell s")
  case None
  then have "handleErase s = s" by (simp add: handleErase_def)
  then show ?thesis by (rule idle)
next
  case (Some rc)
  obtain r c where rc: "rc = (r, c)" by (cases rc)
  have sel: "selectedCell s = Some (r, c)" using Some rc by simp
  show ?thesis
  proof (cases "isComplete s \<or> initialBoard s ! r ! c \<noteq> BLANK")
    case True
    then have "handleErase s = s" using sel by (auto simp: handleErase_def)
    then show ?thesis by (rule idle)
  next
    case False
    then have g: "\<not> isComplete s" "initialBoard s ! r ! c = BLANK" by simp_all
    show ?thesis by (rule erase[OF sel g]) (simp add: handleErase_def sel g)
  qed
qed

lemma memoEntryOk_toggle:
  assumes "memoEntryOk cur" "1 \<le> n" "n \<le> 9"
  shows "memoEntryOk (if n \<in> set cur then filter (\<lambda>x. x \<noteq> n) cur else js_sort (cur @ [n]))"
proof (cases "n \<in> set cur")
  case True
  then show ?thesis using assms(1) by (auto simp: memoEntryOk_def sorted_filter[where f = "\<lambda>x. x", simplified])
next
  case False
  have "\<forall>x\<in>set (cur @ [n]). x < 10" using assms by (auto simp: memoEntryOk_def)
  then have "js_sort (cur @ [n]) = sort (cur @ [n])" by (rule js_sort_digits)
  then show ?thesis using False assms by (auto simp: memoEntryOk_def)
qed

lemma memoEntryOk_Nil: "memoEntryOk []"
  by (simp add: memoEntryOk_def)

lemma sessionInv_selected: "sessionInv s \<Longrightarrow> selectedCell s = Some (r, c) \<Longrightarrow> r < 9 \<and> c < 9"
  by (simp add: sessionInv_def)

lemma sessionInv_board_change:
  assumes inv: "sessionInv s" and sel: "selectedCell s = Some (r, c)"
    and ed: "initialBoard s ! r ! c = BLANK"
    and b: "board s' = setCell (board s) r c v"
    and fr: "initialBoard s' = initialBoard s" "solution s' = solution s"
      "selectedCell s' = selectedCell s"
    and co: "isComplete s' = boardsMatch (setCell (board s) r c v) (solution s)"
    and me: "\<forall>key l. memos s' key = Some l \<longrightarrow> memoEntryOk l"
  shows "sessionInv s'"
proof -
  have rc: "r < 9" "c < 9" using sessionInv_selected[OF inv sel] by simp_all
  have wf: "wf_board (board s)" using inv by (simp add: sessionInv_def)
  have giv: "\<forall>r'<9. \<forall>c'<9. initialBoard s ! r' ! c' \<noteq> BLANK \<longrightarrow>
          board s ! r' ! c' = initialBoard s ! r' ! c' \<and> initialBoard s ! r' ! c' = solution s ! r' ! c'"
    using inv by (simp add: sessionInv_def)
  have "\<forall>r'<9. \<forall>c'<9. initialBoard s ! r' ! c' \<noteq> BLANK \<longrightarrow>
          setCell (board s) r c v ! r' ! c' = initialBoard s ! r' ! c' \<and>
          initialBoard s ! r' ! c' = solution s ! r' ! c'"
    using giv ed by (auto simp: nth_setCell_wf[OF wf rc])
  then show ?thesis
    using inv b fr co me wf_board_setCell[OF wf] by (simp add: sessionInv_def)
qed

lemma handleNumberInput_inv:
  assumes inv: "sessionInv s" and n: "1 \<le> n" "n \<le> 9"
  shows "sessionInv (handleNumberInput n s)"
proof (rule handleNumberInput_cases[of n s], goal_cases)
  case 1
  then show ?case using inv by simp
next
  case (2 r c cur)
  have "memoEntryOk cur"
    using 2(5) inv by (auto simp: sessionInv_def memoEntryOk_Nil split: option.splits)
  from memoEntryOk_toggle[OF this n]
  have "\<forall>key l. memos (handleNumberInput n s) key = Some l \<longrightarrow> memoEntryOk l"
    using inv 2(9) by (auto simp: sessionInv_def)
  then show ?case
    using inv 2(6,7) by (simp add: sessionInv_def handleNumberInput_frame)
next
  case (3 r c v)
  have "\<forall>key l. memos (handleNumberInput n s) key = Some l \<longrightarrow> memoEntryOk l"
    using inv 3(7) by (auto simp: sessionInv_def split: if_splits)
  from sessionInv_board_change[OF inv 3(1,3,5) handleNumberInput_frame(1,2,3) 3(6) this]
  show ?case .
qed

lemma handleErase_inv:
  assumes inv: "sessionInv s"
  shows "sessionInv (handleErase s)"
proof (rule handleErase_cases[of s], goal_cases)
  case 1
  then show ?case using inv by simp
next
  case (2 r c)
  have rc: "r < 9" "c < 9" using sessionInv_selected[OF inv 2(1)] by simp_all
  have wf: "wf_board (board s)" using inv by (simp add: sessionInv_def)
  have "solution s ! r ! c \<noteq> BLANK"
    using inv rc by (simp add: sessionInv_def solved_def noBlank_iff)
  then have "\<not> boardsMatch (setCell (board s) r c BLANK) (solution s)"
    using rc nth_setCell_wf[OF wf rc, of BLANK r c] unfolding boardsMatch_iff by metis
  then have co: "isComplete (handleErase s) = boardsMatch (setCell (board s) r c BLANK) (solution s)"
    using 2 by simp
  show ?case
    by (rule sessionInv_board_change[OF inv 2(1,3) _ _ _ _ co])
       (use inv 2(4) in \<open>simp_all add: sessionInv_def\<close>)
qed

lemma moveSelection_inv:
  assumes inv: "sessionInv s"
  shows "sessionInv (moveSelection a s)"
proof (cases "isComplete s \<or> selectedCell s = None")
  case True
  then have "moveSelection a s = s" by (auto simp: moveSelection_def)
  then show ?thesis using inv by simp
next
  case False
  then obtain r c where sel: "selectedCell s = Some (r, c)" by auto
  have rc: "r < 9" "c < 9" using sessionInv_selected[OF inv sel] by simp_all
  show ?thesis
    using inv False sel rc by (cases a) (auto simp: moveSelection_def sessionInv_def)
qed

lemma budget_pos: "0 < budget d"
  by (simp add: budget_def)

lemma startNewGame_inv:
  assumes f: "fair rnd" and st: "startNewGame rnd d s = Some s'"
  shows "sessionInv s'"
proof -
  obtain sol puz where g: "generatePuzzle rnd d = Some (sol, puz)"
    using st by (auto simp: startNewGame_def split: option.splits)
  have s': "s' = s\<lparr> solution := sol, initialBoard := puz, board := puz, memos := Map.empty,
                     mistakes := 0, isComplete := False, selectedCell := None \<rparr>"
    using st g by (simp add: startNewGame_def)
  note facts = generatePuzzle_facts[OF f g]
  have "countNonBlank puz \<noteq> 81" using facts(4) budget_pos[of d] by linarith
  then have "\<not> noBlank puz" using countNonBlank_full[OF facts(2)] by blast
  then obtain r c where rc: "r < 9" "c < 9" "puz ! r ! c = BLANK" by (auto simp: noBlank_iff)
  have "sol ! r ! c \<noteq> BLANK" using facts(1) rc by (simp add: solved_def noBlank_iff)
  then have "\<not> boardsMatch puz sol" using rc unfolding boardsMatch_iff by metis
  then show ?thesis using facts(1,2,3) by (simp add: s' sessionInv_def)
qed

lemma step_inv:
  assumes "ev_ok e" and "sessionInv s \<or> \<not> playEvent e" and "step e s = Some s'"
  shows "sessionInv s'"
proof (cases e)
  case (NewGame rnd)
  then show ?thesis using assms startNewGame_inv by auto
next
  case (ChangeDifficulty d rnd)
  then show ?thesis using assms startNewGame_inv by auto
next
  case (SelectCell r c)
  then show ?thesis using assms by (auto simp: sessionInv_def)
next
  case (ArrowKey a)
  then show ?thesis using assms moveSelection_inv by auto
next
  case (NumberInput n)
  then show ?thesis using assms handleNumberInput_inv by auto
next
  case Erase
  then show ?thesis using assms handleErase_inv by auto
next
  case ToggleMemo
  then show ?thesis using assms by (auto simp: sessionInv_def)
qed

lemma run_inv:
  "list_all ev_ok evs \<Longrightarrow> sessionInv s \<Longrightarrow> run evs s = Some s' \<Longrightarrow> sessionInv s'"
proof (induction evs arbitrary: s)
  case Nil
  then show ?case by simp
next
  case (Cons e evs)
  then obtain s1 where s1: "step e s = Some s1" "run evs s1 = Some s'"
    by (auto split: option.splits)
  have "sessionInv s1" using step_inv[of e s s1] Cons.prems s1 by simp
  then show ?case using Cons.IH Cons.prems(1) s1(2) by simp
qed

lemma reaches_inv:
  assumes "reaches rnd evs s"
  shows "sessionInv s"
proof -
  obtain s0 where s0: "startNewGame rnd (difficulty initState) initState = Some s0"
    "run evs s0 = Some s"
    using assms by (auto simp: reaches_def split: option.splits)
  have "sessionInv s0" using startNewGame_inv s0(1) assms by (auto simp: reaches_def)
  then show ?thesis using run_inv s0(2) assms by (auto simp: reaches_def)
qed

lemma run_play_frame:
  "list_all playEvent evs \<Longrightarrow> run evs s = Some s' \<Longrightarrow>
   initialBoard s' = initialBoard s \<and> solution s' = solution s"
proof (induction evs arbitrary: s)
  case Nil
  then show ?case by simp
next
  case (Cons e evs)
  then obtain s1 where s1: "step e s = Some s1" "run evs s1 = Some s'"
    by (auto split: option.splits)
  have "initialBoard s1 = initialBoard s \<and> solution s1 = solution s"
    using Cons.prems(1) s1(1)
    by (cases e) (auto simp: handleNumberInput_frame handleErase_def moveSelection_def
        split: option.splits arrow.splits if_splits)
  then show ?case using Cons.IH[OF _ s1(2)] Cons.prems(1) by simp
qed

lemma demoRun_reaches:
  assumes "list_all ev_ok evs" "run evs demoStart \<noteq> None"
  shows "reaches demoSource evs (demoRun evs)"
  using assms fair_demoSource unfolding reaches_def demoRun_eq demo_mount by auto

section \<open>Properties of reached session states\<close>

text \<open>
  Claim C3, as the code has it. In a game in progress, with memo mode off and an
  editable cell selected that does not hold \<open>d\<close>, \<open>handleNumberInput d\<close> writes \<open>d\<close>
  into the cell; when \<open>d\<close> is the solution's digit there, the annotation entry of the
  cell is removed from the map (and no other entry changes); when \<open>d\<close> is wrong, the
  map is left as it was, so an entry can stay under a non-blank cell.
\<close>

theorem correct_digit_clears_memo:
  assumes "selectedCell s = Some (r, c)" and "\<not> isComplete s"
    and "initialBoard s ! r ! c = BLANK" and "\<not> isMemoMode s" and "board s ! r ! c \<noteq> d"
  shows "board (handleNumberInput d s) = setCell (board s) r c d \<and>
         (d = solution s ! r ! c \<longrightarrow>
            memos (handleNumberInput d s) (cellKey r c) = None \<and>
            (\<forall>key. key \<noteq> cellKey r c \<longrightarrow> memos (handleNumberInput d s) key = memos s key)) \<and>
         (d \<noteq> solution s ! r ! c \<longrightarrow> memos (handleNumberInput d s) = memos s)"
  using assms by (auto simp: handleNumberInput_def Let_def)

theorem correct_digit_clears_memo_witness:
  "selectedCell memoBeforePlaceState = Some (0, 0) \<and> \<not> isComplete memoBeforePlaceState \<and>
   initialBoard memoBeforePlaceState ! 0 ! 0 = BLANK \<and> \<not> isMemoMode memoBeforePlaceState \<and>
   board memoBeforePlaceState ! 0 ! 0 \<noteq> 1 \<and> 1 = solution memoBeforePlaceState ! 0 ! 0 \<and>
   memos memoBeforePlaceState (cellKey 0 0) = Some [2] \<and>
   memos (handleNumberInput 1 memoBeforePlaceState) (cellKey 0 0) = None"
proof -
  have h: "selectedCell memoBeforePlaceState = Some (0, 0)" "\<not> isComplete memoBeforePlaceState"
    "initialBoard memoBeforePlaceState ! 0 ! 0 = BLANK" "\<not> isMemoMode memoBeforePlaceState"
    "board memoBeforePlaceState ! 0 ! 0 \<noteq> 1"
    unfolding memoBeforePlaceState_def demoRun_eq by code_simp+
  have e: "1 = solution memoBeforePlaceState ! 0 ! 0"
    "memos memoBeforePlaceState (cellKey 0 0) = Some [2]"
    unfolding memoBeforePlaceState_def demoRun_eq by code_simp+
  from correct_digit_clears_memo[OF h] h e show ?thesis by blast
qed

text \<open>
  Claim C3 as stated fails: \<open>wrongDigitState\<close> is reached by mounting, selecting the
  blank cell \<open>(0, 0)\<close>, noting 2 in memo mode, and entering the wrong digit 3 with memo
  mode off (\<open>wrongDigitState_reached\<close>). The cell then holds 3 and the annotation map
  still has the entry \<open>[2]\<close> for its key.
\<close>

theorem memo_kept_under_wrong_digit_counterexample:
  "memos wrongDigitState (cellKey 0 0) = Some [2] \<and> board wrongDigitState ! 0 ! 0 = 3 \<and>
   3 \<noteq> BLANK"
  unfolding wrongDigitState_def demoRun_eq by code_simp

lemma wrongDigitState_reached:
  "reaches demoSource [SelectCell 0 0, ToggleMemo, NumberInput 2, ToggleMemo, NumberInput 3]
     wrongDigitState"
  unfolding wrongDigitState_def by (rule demoRun_reaches) simp_all

text \<open>
  Claim C4. In every session state reached from the mount by events of the interface,
  \<open>isComplete\<close> holds exactly when \<open>board\<close> and \<open>solution\<close> agree on all 81 cells.
  \<open>handleErase\<close> leaves the flag as it is (it runs no completion check), and the
  equivalence holds after it as well. (The \<open>useState\<close> values before the mount effect,
  three empty boards with the flag off, are not a session: \<open>reaches\<close> starts with the
  new game of the mount effect.)
\<close>

theorem complete_iff_boards_equal:
  assumes "reaches rnd evs s"
  shows "(isComplete s \<longleftrightarrow> (\<forall>i<9. \<forall>j<9. board s ! i ! j = solution s ! i ! j)) \<and>
         isComplete (handleErase s) = isComplete s \<and>
         (isComplete (handleErase s) \<longleftrightarrow>
            (\<forall>i<9. \<forall>j<9. board (handleErase s) ! i ! j = solution (handleErase s) ! i ! j))"
proof -
  have inv: "sessionInv s" using assms by (rule reaches_inv)
  have inv': "sessionInv (handleErase s)" using inv by (rule handleErase_inv)
  have "isComplete (handleErase s) = isComplete s"
    by (rule handleErase_cases[of s]) simp_all
  then show ?thesis using inv inv' by (simp add: sessionInv_def boardsMatch_iff)
qed

lemma completedState_reached: "reaches demoSource (fillEvents 30) completedState"
proof -
  have "run (fillEvents 30) demoStart \<noteq> None" by code_simp
  then show ?thesis unfolding completedState_def using fillEvents_ok[of 30]
    by (intro demoRun_reaches) simp_all
qed

theorem complete_iff_boards_equal_witness:
  "reaches demoSource (fillEvents 30) completedState \<and> isComplete completedState \<and>
   board completedState ! 0 ! 0 = solution completedState ! 0 ! 0 \<and>
   isComplete (handleErase completedState)"
proof -
  have c: "isComplete completedState" unfolding completedState_def demoRun_eq by code_simp
  have "(0::nat) < 9" by simp
  with complete_iff_boards_equal[OF completedState_reached] c
  have "board completedState ! 0 ! 0 = solution completedState ! 0 ! 0"
    "isComplete (handleErase completedState)" by simp_all
  then show ?thesis using completedState_reached c by blast
qed

text \<open>
  Claim C6. From any reached session state, after any sequence of events that starts no
  new game (digits, erasures, selections, arrow keys, memo switches), a given cell holds
  what it held before, which is the puzzle's value and the solution's value there.
\<close>

theorem given_cells_fixed:
  assumes "reaches rnd evs s" and "list_all ev_ok evs'" and "list_all playEvent evs'"
    and "run evs' s = Some s'" and "r < 9" "c < 9" and "initialBoard s ! r ! c \<noteq> BLANK"
  shows "board s' ! r ! c = board s ! r ! c \<and> board s ! r ! c = initialBoard s ! r ! c \<and>
         initialBoard s ! r ! c = solution s ! r ! c \<and> initialBoard s' = initialBoard s \<and>
         solution s' = solution s"
proof -
  have inv: "sessionInv s" using assms(1) by (rule reaches_inv)
  have inv': "sessionInv s'" using run_inv[OF assms(2) inv assms(4)] .
  have fr: "initialBoard s' = initialBoard s" "solution s' = solution s"
    using run_play_frame[OF assms(3,4)] by simp_all
  have "board s ! r ! c = initialBoard s ! r ! c \<and> initialBoard s ! r ! c = solution s ! r ! c"
    using inv assms(5,6,7) by (simp add: sessionInv_def)
  moreover have "board s' ! r ! c = initialBoard s' ! r ! c"
    using inv' assms(5,6,7) fr by (simp add: sessionInv_def)
  ultimately show ?thesis using fr by simp
qed

theorem given_cells_fixed_witness:
  "reaches demoSource [] (demoRun []) \<and> list_all ev_ok givenProbe \<and>
   list_all playEvent givenProbe \<and> run givenProbe (demoRun []) = Some (demoRun givenProbe) \<and>
   (4::nat) < 9 \<and> initialBoard (demoRun []) ! 4 ! 4 \<noteq> BLANK \<and>
   board (demoRun givenProbe) ! 4 ! 4 = board (demoRun []) ! 4 ! 4 \<and>
   board (demoRun []) ! 4 ! 4 = solution (demoRun []) ! 4 ! 4"
proof -
  have r0: "reaches demoSource [] (demoRun [])" by (rule demoRun_reaches) simp_all
  have ok: "list_all ev_ok givenProbe" "list_all playEvent givenProbe"
    by (simp_all add: givenProbe_def)
  have "run givenProbe demoStart \<noteq> None" by code_simp
  then have rn: "run givenProbe (demoRun []) = Some (demoRun givenProbe)"
    by (auto simp: demoRun_eq)
  have a: "(4::nat) < 9" by simp
  have g: "initialBoard (demoRun []) ! 4 ! 4 \<noteq> BLANK" unfolding demoRun_eq by code_simp
  from given_cells_fixed[OF r0 ok rn a a g] r0 ok rn a g show ?thesis by simp
qed

lemma js_sort_append_digit:
  assumes "memoEntryOk cur" "1 \<le> d" "d \<le> 9"
  shows "js_sort (cur @ [d]) = insort d cur"
proof -
  have "\<forall>x\<in>set (cur @ [d]). x < 10" using assms by (auto simp: memoEntryOk_def)
  then have "js_sort (cur @ [d]) = sort (cur @ [d])" by (rule js_sort_digits)
  moreover have "sort (cur @ [d]) = insort d cur"
    using assms(1) by (intro properties_for_sort) (simp_all add: memoEntryOk_def sorted_insort)
  ultimately show ?thesis by simp
qed

text \<open>
  Claim C10. In every reached session state each annotation entry is sorted, free of
  duplicates and made of digits 1-9; and a digit \<open>d\<close> entered in memo mode on a selected
  editable cell of a game in progress replaces the entry by the list without \<open>d\<close> when
  \<open>d\<close> was in it, and by the list with \<open>d\<close> inserted at its place in the order
  otherwise (the default \<open>sort()\<close> orders the one-character strings of 1-9 as numbers).
\<close>

theorem memo_entries_sorted:
  assumes "reaches rnd evs s"
  shows "(\<forall>key l. memos s key = Some l \<longrightarrow> sorted l \<and> distinct l \<and> set l \<subseteq> {1..9}) \<and>
         (\<forall>r c d cur. selectedCell s = Some (r, c) \<and> \<not> isComplete s \<and>
             initialBoard s ! r ! c = BLANK \<and> isMemoMode s \<and> 1 \<le> d \<and> d \<le> 9 \<and>
             cur = (case memos s (cellKey r c) of None \<Rightarrow> [] | Some l \<Rightarrow> l) \<longrightarrow>
             memos (handleNumberInput d s) (cellKey r c) =
               Some (if d \<in> set cur then filter (\<lambda>x. x \<noteq> d) cur else insort d cur))"
proof
  have inv: "sessionInv s" using assms by (rule reaches_inv)
  then have ok: "\<forall>key l. memos s key = Some l \<longrightarrow> memoEntryOk l" by (simp add: sessionInv_def)
  then show "\<forall>key l. memos s key = Some l \<longrightarrow> sorted l \<and> distinct l \<and> set l \<subseteq> {1..9}"
    by (simp add: memoEntryOk_def)
  show "\<forall>r c d cur. selectedCell s = Some (r, c) \<and> \<not> isComplete s \<and>
             initialBoard s ! r ! c = BLANK \<and> isMemoMode s \<and> 1 \<le> d \<and> d \<le> 9 \<and>
             cur = (case memos s (cellKey r c) of None \<Rightarrow> [] | Some l \<Rightarrow> l) \<longrightarrow>
             memos (handleNumberInput d s) (cellKey r c) =
               Some (if d \<in> set cur then filter (\<lambda>x. x \<noteq> d) cur else insort d cur)"
  proof (intro allI impI)
    fix r c d :: nat and cur :: "nat list"
    assume h: "selectedCell s = Some (r, c) \<and> \<not> isComplete s \<and>
             initialBoard s ! r ! c = BLANK \<and> isMemoMode s \<and> 1 \<le> d \<and> d \<le> 9 \<and>
             cur = (case memos s (cellKey r c) of None \<Rightarrow> [] | Some l \<Rightarrow> l)"
    then have "memoEntryOk cur" using ok by (auto simp: memoEntryOk_Nil split: option.splits)
    then have js: "js_sort (cur @ [d]) = insort d cur" using h js_sort_append_digit by blast
    show "memos (handleNumberInput d s) (cellKey r c) =
               Some (if d \<in> set cur then filter (\<lambda>x. x \<noteq> d) cur else insort d cur)"
    proof (cases "memos s (cellKey r c)")
      case None
      then have "cur = []" using h by simp
      then show ?thesis using h None js by (simp add: handleNumberInput_def Let_def)
    next
      case (Some l)
      then have "cur = l" using h by simp
      then show ?thesis using h Some js by (simp add: handleNumberInput_def Let_def)
    qed
  qed
qed

lemma twoMemoState_reached:
  "reaches demoSource [SelectCell 0 0, ToggleMemo, NumberInput 4, NumberInput 2] twoMemoState"
  unfolding twoMemoState_def by (rule demoRun_reaches) simp_all

theorem memo_entries_sorted_witness:
  "reaches demoSource [SelectCell 0 0, ToggleMemo, NumberInput 4, NumberInput 2] twoMemoState \<and>
   memos twoMemoState (cellKey 0 0) = Some [2, 4] \<and>
   sorted [2, 4 :: nat] \<and> distinct [2, 4 :: nat] \<and> set [2, 4 :: nat] \<subseteq> {1..9} \<and>
   memos (handleNumberInput 3 twoMemoState) (cellKey 0 0) = Some [2, 3, 4] \<and>
   memos (handleNumberInput 4 twoMemoState) (cellKey 0 0) = Some [2]"
proof -
  have m: "memos twoMemoState (cellKey 0 0) = Some [2, 4]"
    unfolding twoMemoState_def demoRun_eq by code_simp
  have h: "selectedCell twoMemoState = Some (0, 0)" "\<not> isComplete twoMemoState"
    "initialBoard twoMemoState ! 0 ! 0 = BLANK" "isMemoMode twoMemoState"
    unfolding twoMemoState_def demoRun_eq by code_simp+
  note t = memo_entries_sorted[OF twoMemoState_reached]
  from t m have a: "sorted [2, 4 :: nat] \<and> distinct [2, 4 :: nat] \<and> set [2, 4 :: nat] \<subseteq> {1..9}"
    by blast
  from t have s: "\<And>d cur. 1 \<le> d \<Longrightarrow> d \<le> 9 \<Longrightarrow>
      cur = (case memos twoMemoState (cellKey 0 0) of None \<Rightarrow> [] | Some l \<Rightarrow> l) \<Longrightarrow>
      memos (handleNumberInput d twoMemoState) (cellKey 0 0) =
        Some (if d \<in> set cur then filter (\<lambda>x. x \<noteq> d) cur else insort d cur)"
    using h by blast
  have "memos (handleNumberInput 3 twoMemoState) (cellKey 0 0) = Some [2, 3, 4]"
    using s[of 3 "[2, 4]"] m by simp
  moreover have "memos (handleNumberInput 4 twoMemoState) (cellKey 0 0) = Some [2]"
    using s[of 4 "[2, 4]"] m by simp
  ultimately show ?thesis using twoMemoState_reached m a by blast
qed

end
